theory Spec2Isabelle
  imports Complex_Main "HOL-Library.Word" "HOL-Library.Sublist"
begin

section \<open>JavaScript strings\<close>

text \<open>
  A JavaScript string is a sequence of UTF-16 code units; \<open>length\<close>, \<open>lastIndex\<close> and the
  regular expressions of the action (no \<open>u\<close> flag) all count code units.  ASCII literals
  are written \<open>asc ''...''\<close>.
\<close>

type_synonym code_unit = "16 word"
type_synonym jsstring = "code_unit list"

definition asc :: "string \<Rightarrow> jsstring" where
  "asc = map of_char"

abbreviation lbrace :: code_unit where
  "lbrace \<equiv> 123"

abbreviation rbrace :: code_unit where
  "rbrace \<equiv> 125"

text \<open>
  The class \<open>\s\<close> of a regular expression and the characters removed by
  \<open>String.prototype.trim\<close> are the same set: WhiteSpace and LineTerminator of ECMAScript
  (TAB, LF, VT, FF, CR, SP, NBSP, U+1680, U+2000 to U+200A, U+2028, U+2029, U+202F, U+205F,
  U+3000, U+FEFF).
\<close>

definition is_ws :: "code_unit \<Rightarrow> bool" where
  "is_ws c \<longleftrightarrow>
     c \<in> {9, 10, 11, 12, 13, 32, 160, 5760, 8232, 8233, 8239, 8287, 12288, 65279}
     \<or> (8192 \<le> c \<and> c \<le> 8202)"

definition trim :: "jsstring \<Rightarrow> jsstring" where
  "trim s = rev (dropWhile is_ws (rev (dropWhile is_ws s)))"

abbreviation not_rbrace :: "code_unit \<Rightarrow> bool" where
  "not_rbrace \<equiv> (\<lambda>c. c \<noteq> rbrace)"

fun strip_prefix :: "'a list \<Rightarrow> 'a list \<Rightarrow> 'a list option" where
  "strip_prefix [] s = Some s"
| "strip_prefix (p # ps) [] = None"
| "strip_prefix (p # ps) (c # cs) = (if p = c then strip_prefix ps cs else None)"

section \<open>The two regular expressions\<close>

text \<open>
  Both regular expressions of the action are a sequence of single characters and of
  character classes under a greedy \<open>*\<close> or \<open>+\<close>.  \<open>One p\<close> is a character of class
  \<open>p\<close>; \<open>Many p lo\<close> is \<open>lo\<close> or more characters of class \<open>p\<close>, as many as possible
  first.
\<close>

datatype atom = One "code_unit \<Rightarrow> bool" | Many "code_unit \<Rightarrow> bool" nat

text \<open>
  The backtracking of a greedy quantifier: \<open>first_down f lo k\<close> is the first success
  of \<open>f\<close> among \<open>k, k - 1, ..., lo\<close>.
\<close>

fun first_down :: "(nat \<Rightarrow> 'a option) \<Rightarrow> nat \<Rightarrow> nat \<Rightarrow> 'a option" where
  "first_down f lo 0 = (if lo = 0 then f 0 else None)"
| "first_down f lo (Suc k) =
     (if Suc k < lo then None
      else case f (Suc k) of Some r \<Rightarrow> Some r | None \<Rightarrow> first_down f lo k)"

text \<open>
  The match of a sequence of atoms at the head of \<open>s\<close>: the text each atom consumed, in
  order, on the first path of the backtracking search that succeeds.
\<close>

fun rx_match :: "atom list \<Rightarrow> jsstring \<Rightarrow> jsstring list option" where
  "rx_match [] s = Some []"
| "rx_match (One p # as) s =
     (case s of
        [] \<Rightarrow> None
      | c # cs \<Rightarrow> if p c then map_option (Cons [c]) (rx_match as cs) else None)"
| "rx_match (Many p lo # as) s =
     first_down (\<lambda>k. map_option (Cons (take k s)) (rx_match as (drop k s)))
       lo (length (takeWhile p s))"

definition chars :: "jsstring \<Rightarrow> atom list" where
  "chars s = map (\<lambda>c. One (\<lambda>x. x = c)) s"

text \<open>
  \<^verbatim>\<open>/\{\{\s*([^}]+)\s*\}\}/\<close> tried at the head of \<open>s\<close>: the matched text, group 1 and
  the text after the match.
\<close>

definition token_rx :: "atom list" where
  "token_rx = chars [lbrace, lbrace] @ [Many is_ws 0, Many not_rbrace 1, Many is_ws 0]
              @ chars [rbrace, rbrace]"

definition token_match :: "jsstring \<Rightarrow> (jsstring \<times> jsstring \<times> jsstring) option" where
  "token_match s =
     (case rx_match token_rx s of
        Some [b1, b2, ws1, g, ws2, b3, b4] \<Rightarrow>
          Some (concat [b1, b2, ws1, g, ws2, b3, b4], g,
                drop (length (concat [b1, b2, ws1, g, ws2, b3, b4])) s)
      | _ \<Rightarrow> None)"

text \<open>
  \<^verbatim>\<open>PROFILE_TOKEN_REGEX = /\{\{\s*profile\.[^}]+\}\}/g\<close> tried at the head of \<open>s\<close>: the
  length of the match.
\<close>

definition profile_dot :: jsstring where
  "profile_dot = asc ''profile.''"

definition profile_rx :: "atom list" where
  "profile_rx = chars [lbrace, lbrace] @ [Many is_ws 0] @ chars profile_dot
                @ [Many not_rbrace 1] @ chars [rbrace, rbrace]"

definition profile_match :: "jsstring \<Rightarrow> nat option" where
  "profile_match s = map_option (length \<circ> concat) (rx_match profile_rx s)"

text \<open>
  The regular expression carries the \<open>g\<close> flag, so \<open>test\<close> is stateful: the search starts
  at \<open>lastIndex\<close>, a success stores the end of the match in \<open>lastIndex\<close>, a failure stores 0
  (RegExpBuiltinExec).  \<open>profile_search s i\<close> tries the positions of the suffix \<open>s\<close>, which
  starts at index \<open>i\<close> of the subject, from left to right, and gives the end index.
\<close>

fun profile_search :: "jsstring \<Rightarrow> nat \<Rightarrow> nat option" where
  "profile_search [] i = None"
| "profile_search (c # cs) i =
     (case profile_match (c # cs) of
        Some n \<Rightarrow> Some (i + n)
      | None \<Rightarrow> profile_search cs (Suc i))"

definition PROFILE_TOKEN_REGEX_test :: "jsstring \<Rightarrow> nat \<Rightarrow> bool \<times> nat" where
  "PROFILE_TOKEN_REGEX_test s lastIndex =
     (if length s < lastIndex then (False, 0)
      else case profile_search (drop lastIndex s) lastIndex of
             Some e \<Rightarrow> (True, e)
           | None \<Rightarrow> (False, 0))"

section \<open>resolveStaticTokens\<close>

type_synonym table = "jsstring \<rightharpoonup> jsstring"

text \<open>
  The callback given to \<open>replace\<close>: the matched text and group 1 come in, the replacement
  comes out, and the \<open>lastIndex\<close> of the module-level regular expression is threaded.
\<close>

definition replacer :: "table \<Rightarrow> jsstring \<Rightarrow> jsstring \<Rightarrow> nat \<Rightarrow> jsstring \<times> nat" where
  "replacer staticTokens match token lastIndex =
     (let trimmed = trim token;
          (is_profile, lastIndex') = PROFILE_TOKEN_REGEX_test match lastIndex
      in if is_profile then (match, lastIndex')
         else (case staticTokens trimmed of
                 Some v \<Rightarrow> (v, lastIndex')
               | None \<Rightarrow> (match, lastIndex')))"

text \<open>
  \<open>String.prototype.replace\<close> with a global regular expression first collects the
  matches from left to right, each search resuming after the previous match (a match is
  never empty here), then calls the callback on each match in order and puts the
  results between the unmatched characters.
\<close>

datatype piece = Unmatched code_unit | Matched jsstring jsstring

function pieces :: "jsstring \<Rightarrow> piece list" where
  "pieces s =
     (case token_match s of
        Some (m, tok, rest) \<Rightarrow> Matched m tok # pieces rest
      | None \<Rightarrow> (case s of [] \<Rightarrow> [] | c # cs \<Rightarrow> Unmatched c # pieces cs))"
  by pat_completeness auto
termination
proof (relation "measure length")
  fix s :: jsstring and x2 m y tok rest
  assume a: "token_match s = Some x2" "(m, y) = x2" "(tok, rest) = y"
  then obtain b1 b2 ws1 g ws2 b3 b4 where
    rx: "rx_match token_rx s = Some [b1, b2, ws1, g, ws2, b3, b4]"
    and rest: "rest = drop (length (concat [b1, b2, ws1, g, ws2, b3, b4])) s"
    by (auto simp: token_match_def split: option.splits list.splits)
  from rx have "s \<noteq> [] \<and> b1 \<noteq> []"
    by (cases s) (auto simp: token_rx_def chars_def split: if_splits)
  with rest show "(rest, s) \<in> measure length" by simp
qed simp_all

declare pieces.simps [simp del]

fun run_replacer :: "table \<Rightarrow> piece list \<Rightarrow> nat \<Rightarrow> jsstring list \<times> nat" where
  "run_replacer staticTokens [] lastIndex = ([], lastIndex)"
| "run_replacer staticTokens (Unmatched c # ps) lastIndex =
     (let (outs, lastIndex') = run_replacer staticTokens ps lastIndex
      in ([c] # outs, lastIndex'))"
| "run_replacer staticTokens (Matched m tok # ps) lastIndex =
     (let (out, lastIndex1) = replacer staticTokens m tok lastIndex;
          (outs, lastIndex2) = run_replacer staticTokens ps lastIndex1
      in (out # outs, lastIndex2))"

definition string_replace :: "table \<Rightarrow> jsstring \<Rightarrow> nat \<Rightarrow> jsstring \<times> nat" where
  "string_replace staticTokens s lastIndex =
     (let (outs, lastIndex') = run_replacer staticTokens (pieces s) lastIndex
      in (concat outs, lastIndex'))"

section \<open>JavaScript values\<close>

text \<open>
  The values a field of the content record can hold (\<open>elements.<name>.value\<close>): a scalar
  of JSON, or \<open>undefined\<close> when the field or its wrapper is absent.  A finite number is
  given by the rational it is equal to (the two zeros are one); \<open>NaN\<close> and the infinities
  are values of their own.
\<close>

datatype jsnum = NaN | Inf bool | Fin rat

datatype jsval = Undefined | Null | Bool bool | Num jsnum | Str jsstring

fun truthy :: "jsval \<Rightarrow> bool" where
  "truthy Undefined = False"
| "truthy Null = False"
| "truthy (Bool b) = b"
| "truthy (Num NaN) = False"
| "truthy (Num (Inf pos)) = True"
| "truthy (Num (Fin r)) = (r \<noteq> 0)"
| "truthy (Str s) = (s \<noteq> [])"

text \<open>\<open>a || b\<close>\<close>

definition js_or :: "jsval \<Rightarrow> jsval \<Rightarrow> jsval" where
  "js_or a b = (if truthy a then a else b)"

subsection \<open>\<open>Number(v)\<close>\<close>

text \<open>
  StringToNumber of ECMAScript: white space is trimmed; the empty string is 0; the rest
  must be a StrNumericLiteral (\<open>Infinity\<close>, decimal digits with an optional fraction and
  exponent, under an optional sign, or an unsigned literal in base 16, 8 or 2), anything
  else is \<open>NaN\<close>.  The mathematical value of the literal is rounded to binary64.
\<close>

definition digit_of :: "code_unit \<Rightarrow> nat option" where
  "digit_of c =
     (if 48 \<le> c \<and> c \<le> 57 then Some (unat c - 48)
      else if 97 \<le> c \<and> c \<le> 102 then Some (unat c - 87)
      else if 65 \<le> c \<and> c \<le> 70 then Some (unat c - 55)
      else None)"

definition is_digit :: "nat \<Rightarrow> code_unit \<Rightarrow> bool" where
  "is_digit base c = (case digit_of c of Some d \<Rightarrow> d < base | None \<Rightarrow> False)"

definition digits_value :: "nat \<Rightarrow> jsstring \<Rightarrow> nat" where
  "digits_value base ds =
     foldl (\<lambda>a c. a * base + (case digit_of c of Some d \<Rightarrow> d | None \<Rightarrow> 0)) 0 ds"

text \<open>The exponent of an optional ExponentPart; \<open>None\<close> when the text is ill-formed.\<close>

definition exponent_part :: "jsstring \<Rightarrow> int option" where
  "exponent_part s =
     (case s of
        [] \<Rightarrow> Some 0
      | e # r \<Rightarrow>
          if e \<noteq> 101 \<and> e \<noteq> 69 then None
          else (let (neg, ds) = (case r of
                                   [] \<Rightarrow> (False, [])
                                 | c # r' \<Rightarrow> if c = 45 then (True, r')
                                             else if c = 43 then (False, r')
                                             else (False, r))
                in if ds \<noteq> [] \<and> list_all (is_digit 10) ds
                   then Some (if neg then - int (digits_value 10 ds) else int (digits_value 10 ds))
                   else None))"

definition scale10 :: "rat \<Rightarrow> int \<Rightarrow> rat" where
  "scale10 m e = (if 0 \<le> e then m * 10 ^ nat e else m / 10 ^ nat (- e))"

text \<open>
  The Number value for a rational (IEEE 754 binary64, round to nearest, ties to even): 53
  significant bits, the exponent of the leading bit not below \<open>-1022\<close>, so that small
  values round on the subnormal grid and to 0, and a result of \<open>2^1024\<close> or more is an
  infinity.  (For a literal of more than 20 significant digits ECMAScript lets the
  implementation round a truncation of it instead; Node rounds the exact value.)
\<close>

function bit_length :: "int \<Rightarrow> int" where
  "bit_length n = (if n \<le> 0 then 0 else 1 + bit_length (n div 2))"
  by pat_completeness auto
termination
  by (relation "measure nat") auto

declare bit_length.simps [simp del]

definition pow2 :: "int \<Rightarrow> rat" where
  "pow2 e = (if 0 \<le> e then 2 ^ nat e else 1 / 2 ^ nat (- e))"

text \<open>For \<open>a > 0\<close>, the exponent \<open>e\<close> with \<open>2^e \<le> a < 2^(e + 1)\<close>.\<close>

definition floor_log2 :: "rat \<Rightarrow> int" where
  "floor_log2 a =
     (let (p, q) = quotient_of a;
          d = bit_length p - bit_length q
      in if pow2 d \<le> a then d else d - 1)"

definition round_half_even :: "rat \<Rightarrow> int" where
  "round_half_even x =
     (let f = \<lfloor>x\<rfloor>; d = x - of_int f
      in if d < 1 / 2 then f
         else if 1 / 2 < d then f + 1
         else if even f then f else f + 1)"

definition round64 :: "rat \<Rightarrow> jsnum" where
  "round64 r =
     (if r = 0 then Fin 0
      else (let a = \<bar>r\<bar>;
                e = max (floor_log2 a) (- 1022);
                q = pow2 (e - 52);
                v = of_int (round_half_even (a / q)) * q
            in if pow2 1024 \<le> v then Inf (0 < r)
               else Fin (if r < 0 then - v else v)))"

definition unsigned_decimal :: "jsstring \<Rightarrow> jsnum" where
  "unsigned_decimal s =
     (if s = asc ''Infinity'' then Inf True
      else (let ip = takeWhile (is_digit 10) s;
                r1 = dropWhile (is_digit 10) s;
                (fp, r2) = (case r1 of
                              [] \<Rightarrow> ([], [])
                            | c # r \<Rightarrow> if c = 46
                                        then (takeWhile (is_digit 10) r, dropWhile (is_digit 10) r)
                                        else ([], r1))
            in if ip = [] \<and> fp = [] then NaN
               else (case exponent_part r2 of
                       None \<Rightarrow> NaN
                     | Some e \<Rightarrow>
                         round64 (scale10 (of_nat (digits_value 10 ip)
                                           + of_nat (digits_value 10 fp) / 10 ^ length fp) e))))"

fun negate :: "jsnum \<Rightarrow> jsnum" where
  "negate NaN = NaN"
| "negate (Inf pos) = Inf (\<not> pos)"
| "negate (Fin r) = Fin (- r)"

definition non_decimal :: "jsstring \<Rightarrow> jsnum option" where
  "non_decimal s =
     (case s of
        z # x # ds \<Rightarrow>
          (let base = (if x = 120 \<or> x = 88 then 16
                       else if x = 111 \<or> x = 79 then 8
                       else if x = 98 \<or> x = 66 then 2
                       else (0::nat))
           in if z = 48 \<and> base \<noteq> 0
              then Some (if ds \<noteq> [] \<and> list_all (is_digit base) ds
                         then round64 (of_nat (digits_value base ds)) else NaN)
              else None)
      | _ \<Rightarrow> None)"

definition StringToNumber :: "jsstring \<Rightarrow> jsnum" where
  "StringToNumber s =
     (let t = trim s
      in case t of
           [] \<Rightarrow> Fin 0
         | c # r \<Rightarrow>
             (case non_decimal t of
                Some n \<Rightarrow> n
              | None \<Rightarrow>
                  if c = 45 then negate (unsigned_decimal r)
                  else if c = 43 then unsigned_decimal r
                  else unsigned_decimal t))"

fun Number :: "jsval \<Rightarrow> jsnum" where
  "Number Undefined = NaN"
| "Number Null = Fin 0"
| "Number (Bool b) = Fin (if b then 1 else 0)"
| "Number (Num n) = n"
| "Number (Str s) = StringToNumber s"

subsection \<open>Conversion to a string, as a template literal does it\<close>

function nat_to_string :: "nat \<Rightarrow> jsstring" where
  "nat_to_string n =
     (if n < 10 then [48 + of_nat n]
      else nat_to_string (n div 10) @ [48 + of_nat (n mod 10)])"
  by pat_completeness auto
termination
  by (relation "measure id") auto

declare nat_to_string.simps [simp del]

definition is_safe_integer :: "rat \<Rightarrow> bool" where
  "is_safe_integer r \<longleftrightarrow> r = of_int \<lfloor>r\<rfloor> \<and> \<bar>r\<bar> \<le> 9007199254740991"

text \<open>
  Number::toString in radix 10.  A safe integer prints as its decimal digits.  For any
  other finite number the text comes from the shortest-digits search of Number::toString
  and its exponent notation, which are outside this model: it is the parameter
  \<open>digits\<close>.
\<close>

definition number_to_string :: "(rat \<Rightarrow> jsstring) \<Rightarrow> jsnum \<Rightarrow> jsstring" where
  "number_to_string digits n =
     (case n of
        NaN \<Rightarrow> asc ''NaN''
      | Inf pos \<Rightarrow> (if pos then asc ''Infinity'' else asc ''-Infinity'')
      | Fin r \<Rightarrow>
          if is_safe_integer r
          then (if r < 0 then asc ''-'' @ nat_to_string (nat (- \<lfloor>r\<rfloor>))
                else nat_to_string (nat \<lfloor>r\<rfloor>))
          else digits r)"

fun ToString :: "(rat \<Rightarrow> jsstring) \<Rightarrow> jsval \<Rightarrow> jsstring" where
  "ToString digits Undefined = asc ''undefined''"
| "ToString digits Null = asc ''null''"
| "ToString digits (Bool b) = (if b then asc ''true'' else asc ''false'')"
| "ToString digits (Num n) = number_to_string digits n"
| "ToString digits (Str s) = s"

text \<open>A parameter of the invocation that is a string or absent, inside a template literal.\<close>

fun text_of :: "jsstring option \<Rightarrow> jsstring" where
  "text_of None = asc ''undefined''"
| "text_of (Some s) = s"

subsection \<open>resolveStaticTokens on a value\<close>

datatype error =
    TypeError
  | FetchRejected
  | InvalidJson
  | AEM_fetch_failed nat jsstring
  | AEM_publish_write_failed nat jsstring

text \<open>
  \<open>if (!input) return input\<close>; a truthy value that is not a string has no \<open>replace\<close>
  method, and the call throws a TypeError.
\<close>

definition resolveStaticTokens :: "jsval \<Rightarrow> table \<Rightarrow> nat \<Rightarrow> (error + jsval) \<times> nat" where
  "resolveStaticTokens input staticTokens lastIndex =
     (if \<not> truthy input then (Inr input, lastIndex)
      else (case input of
              Str s \<Rightarrow> (let (out, lastIndex') = string_replace staticTokens s lastIndex
                        in (Inr (Str out), lastIndex'))
            | _ \<Rightarrow> (Inl TypeError, lastIndex)))"

section \<open>The publish action\<close>

text \<open>
  The fetched JSON, as far as the action reads it: \<open>elements\<close> maps a field name to the
  \<open>value\<close> of its wrapper.  \<open>None\<close> is a document with no (truthy) \<open>elements\<close>, for which
  the action takes \<open>{}\<close>; a name outside the domain is a missing field or wrapper, read as
  \<open>undefined\<close> by the optional chaining.
\<close>

type_synonym content_record = "jsstring \<rightharpoonup> jsval"
type_synonym cfjson = "content_record option"

text \<open>\<open>cfJson?.elements || {}\<close>\<close>

definition elements_of :: "cfjson \<Rightarrow> content_record" where
  "elements_of cfJson = (case cfJson of None \<Rightarrow> Map.empty | Some els \<Rightarrow> els)"

text \<open>\<open>elements?.name?.value\<close>\<close>

definition field :: "content_record \<Rightarrow> string \<Rightarrow> jsval" where
  "field elements name = (case elements (asc name) of None \<Rightarrow> Undefined | Some v \<Rightarrow> v)"

record payload =
  cardId :: jsval
  headline :: jsval
  body :: jsval
  image :: jsval
  ctaLabel :: jsval
  ctaAction :: jsval
  termsText :: jsval
  cacheTTL :: jsnum

datatype http_method = GET | PUT

text \<open>
  A call of \<open>fetch\<close>.  The body is the object handed to \<open>JSON.stringify\<close>; its
  serialisation is not modelled.
\<close>

record request =
  http_method :: http_method
  url :: jsstring
  headers :: "(string \<times> jsstring) list"
  payload :: "payload option"

text \<open>
  What \<open>fetch\<close> and the reading of the response give: the promise rejects, the status is
  not a success (status and text), the body of a successful response is not JSON, or it
  is.
\<close>

datatype response = Rejected | Not_ok nat jsstring | Ok_not_json | Ok_json cfjson

type_synonym network = "request \<Rightarrow> response"

text \<open>The two requests the wrappers build.\<close>

definition get_request :: "jsstring \<Rightarrow> jsstring option \<Rightarrow> request" where
  "get_request u accessToken =
     \<lparr>http_method = GET, url = u,
      headers = [(''Authorization'', asc ''Bearer '' @ text_of accessToken),
                 (''Content-Type'', asc ''application/json'')],
      payload = None\<rparr>"

definition put_request ::
  "(rat \<Rightarrow> jsstring) \<Rightarrow> jsstring \<Rightarrow> jsstring option \<Rightarrow> payload \<Rightarrow> jsnum \<Rightarrow> request" where
  "put_request digits u accessToken b ttlSeconds =
     \<lparr>http_method = PUT, url = u,
      headers = [(''Authorization'', asc ''Bearer '' @ text_of accessToken),
                 (''Content-Type'', asc ''application/json''),
                 (''Cache-Control'',
                    asc ''public, max-age='' @ number_to_string digits ttlSeconds
                      @ asc '', immutable'')],
      payload = Some b\<rparr>"

text \<open>Both wrappers return their result and the calls they made.\<close>

definition fetchAemJson ::
  "network \<Rightarrow> jsstring \<Rightarrow> jsstring option \<Rightarrow> (error + cfjson) \<times> request list" where
  "fetchAemJson fetch u accessToken =
     (let req = get_request u accessToken
      in (case fetch req of
            Rejected \<Rightarrow> Inl FetchRejected
          | Not_ok status txt \<Rightarrow> Inl (AEM_fetch_failed status txt)
          | Ok_not_json \<Rightarrow> Inl InvalidJson
          | Ok_json j \<Rightarrow> Inr j,
          [req]))"

definition putAemJson ::
  "(rat \<Rightarrow> jsstring) \<Rightarrow> network \<Rightarrow> jsstring \<Rightarrow> jsstring option \<Rightarrow> payload \<Rightarrow> jsnum
     \<Rightarrow> (error + cfjson) \<times> request list" where
  "putAemJson digits fetch u accessToken b ttlSeconds =
     (let req = put_request digits u accessToken b ttlSeconds
      in (case fetch req of
            Rejected \<Rightarrow> Inl FetchRejected
          | Not_ok status txt \<Rightarrow> Inl (AEM_publish_write_failed status txt)
          | Ok_not_json \<Rightarrow> Inl InvalidJson
          | Ok_json j \<Rightarrow> Inr j,
          [req]))"

record params =
  cfPath :: "jsstring option"
  authorHost :: "jsstring option"
  publishHost :: "jsstring option"
  authorAccessToken :: "jsstring option"
  publishAccessToken :: "jsstring option"
  staticTokens :: "table option"

text \<open>\<open>!p\<close> for a parameter that is a string or absent.\<close>

fun missing :: "jsstring option \<Rightarrow> bool" where
  "missing None = True"
| "missing (Some s) = (s = [])"

datatype result_body = Message jsstring | Published jsstring jsstring

datatype outcome = Returned nat result_body | Thrown error

text \<open>
  The object literal of \<open>main\<close>: its properties are evaluated in order, so the four calls
  of \<open>resolveStaticTokens\<close> run on headline, body, ctaLabel and termsText in that order,
  each starting from the \<open>lastIndex\<close> the previous one left, and the first one that throws
  ends the evaluation.
\<close>

definition build_payload ::
  "content_record \<Rightarrow> jsval \<Rightarrow> jsnum \<Rightarrow> table \<Rightarrow> nat \<Rightarrow> (error + payload) \<times> nat" where
  "build_payload elements cid ttl tbl lastIndex =
     (case resolveStaticTokens (field elements ''headline'') tbl lastIndex of
        (Inl e, l1) \<Rightarrow> (Inl e, l1)
      | (Inr h, l1) \<Rightarrow>
     (case resolveStaticTokens (field elements ''body'') tbl l1 of
        (Inl e, l2) \<Rightarrow> (Inl e, l2)
      | (Inr b, l2) \<Rightarrow>
     (case resolveStaticTokens (field elements ''ctaLabel'') tbl l2 of
        (Inl e, l3) \<Rightarrow> (Inl e, l3)
      | (Inr c, l3) \<Rightarrow>
     (case resolveStaticTokens (field elements ''termsText'') tbl l3 of
        (Inl e, l4) \<Rightarrow> (Inl e, l4)
      | (Inr t, l4) \<Rightarrow>
          (Inr \<lparr>cardId = cid,
                headline = h,
                body = b,
                image = js_or (field elements ''image'') Null,
                ctaLabel = c,
                ctaAction = js_or (field elements ''ctaAction'') (Str (asc ''browser'')),
                termsText = t,
                cacheTTL = ttl\<rparr>, l4)))))"

text \<open>
  \<open>main\<close> gives its outcome, the network calls it made, in order, and the \<open>lastIndex\<close> it
  leaves in the module-level regular expression.
\<close>

definition main ::
  "(rat \<Rightarrow> jsstring) \<Rightarrow> network \<Rightarrow> params \<Rightarrow> nat \<Rightarrow> outcome \<times> request list \<times> nat" where
  "main digits fetch ps lastIndex =
     (let tbl = (case staticTokens ps of None \<Rightarrow> Map.empty | Some t \<Rightarrow> t)
      in if missing (cfPath ps) \<or> missing (authorHost ps) \<or> missing (publishHost ps)
         then (Returned 400 (Message (asc ''Missing required parameters'')), [], lastIndex)
         else
           (let cfUrl = text_of (authorHost ps) @ text_of (cfPath ps) @ asc ''.model.json'';
                (fetched, calls1) = fetchAemJson fetch cfUrl (authorAccessToken ps)
            in case fetched of
                 Inl e \<Rightarrow> (Thrown e, calls1, lastIndex)
               | Inr cfJson \<Rightarrow>
                   (let elements = elements_of cfJson;
                        cid = field elements ''cardId''
                    in if \<not> truthy cid
                       then (Returned 422 (Message (asc ''cardId is required'')), calls1, lastIndex)
                       else
                         (let ttl = Number (js_or (field elements ''cacheTTL'')
                                                  (Num (Fin 86400)))
                          in case build_payload elements cid ttl tbl lastIndex of
                               (Inl e, l') \<Rightarrow> (Thrown e, calls1, l')
                             | (Inr pl, l') \<Rightarrow>
                                 (let publishUrl = text_of (publishHost ps)
                                        @ asc ''/content/cards/'' @ ToString digits cid
                                        @ asc ''.json'';
                                      (written, calls2) =
                                        putAemJson digits fetch publishUrl
                                          (publishAccessToken ps) pl ttl
                                  in case written of
                                       Inl e \<Rightarrow> (Thrown e, calls1 @ calls2, l')
                                     | Inr _ \<Rightarrow>
                                         (Returned 200
                                            (Published (asc ''Card payload published'')
                                               publishUrl),
                                          calls1 @ calls2, l'))))))"

section \<open>Notions of the specification\<close>

text \<open>
  A text "contains a \<open>{{...}}\<close> sequence" when two opening braces are followed, somewhere
  later, by two closing braces.
\<close>

fun has_close :: "jsstring \<Rightarrow> bool" where
  "has_close (a # b # r) = (a = rbrace \<and> b = rbrace \<or> has_close (b # r))"
| "has_close _ = False"

fun has_token_syntax :: "jsstring \<Rightarrow> bool" where
  "has_token_syntax (a # b # r) = (a = lbrace \<and> b = lbrace \<and> has_close r \<or> has_token_syntax (b # r))"
| "has_token_syntax _ = False"

text \<open>The part of the subject a piece stands for.\<close>

fun piece_text :: "piece \<Rightarrow> jsstring" where
  "piece_text (Unmatched c) = [c]"
| "piece_text (Matched m tok) = m"


text \<open>The local values of \<open>main\<close>, named.\<close>

definition cfUrl_of :: "params \<Rightarrow> jsstring" where
  "cfUrl_of ps = text_of (authorHost ps) @ text_of (cfPath ps) @ asc ''.model.json''"

definition table_of :: "params \<Rightarrow> table" where
  "table_of ps = (case staticTokens ps of None \<Rightarrow> Map.empty | Some t \<Rightarrow> t)"

definition ttl_of :: "content_record \<Rightarrow> jsnum" where
  "ttl_of els = Number (js_or (field els ''cacheTTL'') (Num (Fin 86400)))"

definition publishUrl_of :: "(rat \<Rightarrow> jsstring) \<Rightarrow> params \<Rightarrow> jsval \<Rightarrow> jsstring" where
  "publishUrl_of digits ps cid =
     text_of (publishHost ps) @ asc ''/content/cards/'' @ ToString digits cid @ asc ''.json''"

text \<open>
  What an invocation did: the calls it made, the writes to the destination among them,
  and the cache directive of a request.
\<close>

definition calls_of :: "outcome \<times> request list \<times> nat \<Rightarrow> request list" where
  "calls_of r = fst (snd r)"

definition writes_of :: "outcome \<times> request list \<times> nat \<Rightarrow> request list" where
  "writes_of r = filter (\<lambda>c. http_method c = PUT) (calls_of r)"

definition cache_control :: "request \<Rightarrow> jsstring option" where
  "cache_control r = map_of (headers r) ''Cache-Control''"

text \<open>
  A value \<open>resolveStaticTokens\<close> accepts: a falsy one, which it returns, or a string.
\<close>

fun resolvable :: "jsval \<Rightarrow> bool" where
  "resolvable (Bool b) = (\<not> b)"
| "resolvable (Num n) = (\<not> truthy (Num n))"
| "resolvable v = True"

text \<open>
  Examples: a network that answers every request with a success whose JSON is \<open>j\<close>; a
  stand-in for the digits of numbers that are not safe integers, none of which occurs in
  the examples; the parameters of an invocation with a table; the record of the
  end-to-end example of the specification.
\<close>

definition serve :: "cfjson \<Rightarrow> network" where
  "serve j req = Ok_json j"

definition unused_digits :: "rat \<Rightarrow> jsstring" where
  "unused_digits r = []"

definition example_params :: "table \<Rightarrow> params" where
  "example_params tbl =
     \<lparr>cfPath = Some (asc ''/content/dam/cards/personal-cup''),
      authorHost = Some (asc ''https://author.example.aem.cloud''),
      publishHost = Some (asc ''https://publish.example.aem.cloud''),
      authorAccessToken = Some (asc ''A''),
      publishAccessToken = Some (asc ''P''),
      staticTokens = Some tbl\<rparr>"

definition cup_record :: content_record where
  "cup_record =
     [asc ''cardId'' \<mapsto> Str (asc ''cup''),
      asc ''headline'' \<mapsto> Str (asc ''Hi {{env.brand}}, {{profile.name}}''),
      asc ''cacheTTL'' \<mapsto> Num (Fin 3600)]"

text \<open>
  The replacement a match gets when the profile test says no, and the output of
  \<open>replace\<close> in that case: the resolver without the state of \<open>PROFILE_TOKEN_REGEX\<close>.
\<close>

fun substitute :: "table \<Rightarrow> piece \<Rightarrow> jsstring" where
  "substitute tbl (Unmatched c) = [c]"
| "substitute tbl (Matched m tok) = (case tbl (trim tok) of Some v \<Rightarrow> v | None \<Rightarrow> m)"

definition scan :: "table \<Rightarrow> jsstring \<Rightarrow> jsstring" where
  "scan tbl s = concat (map (substitute tbl) (pieces s))"

text \<open>
  Group 1 of the token pattern, from the brace-free run \<open>w\<close> between the braces: the
  greedy \<open>\s*\<close> takes the leading white space, the group the rest, the trailing \<open>\s*\<close>
  nothing; when \<open>w\<close> is white space only, the search backtracks by one character, which
  becomes the group.
\<close>

definition group1 :: "jsstring \<Rightarrow> jsstring" where
  "group1 w = (if dropWhile is_ws w = [] then [last w] else dropWhile is_ws w)"

text \<open>The first closing brace of \<open>s\<close> is followed by another one.\<close>

definition closes :: "jsstring \<Rightarrow> bool" where
  "closes s \<longleftrightarrow> take 2 (dropWhile not_rbrace s) = [rbrace, rbrace]"

text \<open>
  A replacement value that cannot make a new token: it is not empty, has no opening brace
  and does not begin with a closing brace.
\<close>

definition plain_value :: "jsstring \<Rightarrow> bool" where
  "plain_value v \<longleftrightarrow> v \<noteq> [] \<and> lbrace \<notin> set v \<and> hd v \<noteq> rbrace"

section \<open>The regular expressions in closed form\<close>

text \<open>
  Neither \<open>\s\<close> nor \<open>[^}]\<close> admits a closing brace, and both patterns end in two of
  them, so the backtracking search has one possible outcome: a match of the token
  pattern is \<open>{{ w }}\<close> with \<open>w\<close> the whole brace-free run after the opening braces,
  not empty; a match of the profile pattern is \<open>{{\<close>, all the white space there is,
  \<open>profile.\<close>, and the whole brace-free run that follows, not empty, before \<open>}}\<close>.
\<close>

lemma first_down_SomeD:
  "first_down f lo k = Some r \<Longrightarrow> \<exists>j. lo \<le> j \<and> j \<le> k \<and> f j = Some r"
proof (induction k)
  case 0
  then show ?case by (auto split: if_splits)
next
  case (Suc k)
  show ?case
  proof (cases "f (Suc k)")
    case None
    with Suc.prems have "first_down f lo k = Some r" by (auto split: if_splits)
    from Suc.IH[OF this] show ?thesis by (meson le_Suc_eq)
  next
    case (Some a)
    with Suc.prems have "a = r" "lo \<le> Suc k" by (auto split: if_splits)
    with Some show ?thesis by blast
  qed
qed

lemma first_down_top: "lo \<le> k \<Longrightarrow> f k = Some r \<Longrightarrow> first_down f lo k = Some r"
  by (cases k) auto

lemma first_down_None:
  "(\<And>j. lo \<le> j \<Longrightarrow> j \<le> k \<Longrightarrow> f j = None) \<Longrightarrow> first_down f lo k = None"
  by (cases "first_down f lo k") (auto dest: first_down_SomeD)

lemma first_down_only_top:
  assumes "\<And>j. lo \<le> j \<Longrightarrow> j < k \<Longrightarrow> f j = None" "lo \<le> k"
  shows "first_down f lo k = f k"
proof (cases "f k")
  case None
  have "first_down f lo k = None"
  proof (rule first_down_None)
    fix j assume "lo \<le> j" "j \<le> k"
    with assms(1) None show "f j = None" by (cases "j = k") auto
  qed
  with None show ?thesis by simp
next
  case (Some r)
  with assms(2) show ?thesis by (simp add: first_down_top)
qed

lemma rx_chars:
  "rx_match (chars p @ X) s =
     (case strip_prefix p s of
        None \<Rightarrow> None
      | Some r \<Rightarrow> (case rx_match X r of
                     None \<Rightarrow> None
                   | Some ls \<Rightarrow> Some (map (\<lambda>c. [c]) p @ ls)))"
proof (induction p s rule: strip_prefix.induct)
  case (1 s)
  show ?case by (simp add: chars_def split: option.splits)
next
  case (2 p ps)
  show ?case by (simp add: chars_def)
next
  case (3 p ps c cs)
  then show ?case by (auto simp: chars_def split: option.splits)
qed

lemma rx_close:
  "rx_match (chars [rbrace, rbrace]) z
     = (if take 2 z = [rbrace, rbrace] then Some [[rbrace], [rbrace]] else None)"
  by (cases z; cases "tl z") (auto simp: chars_def)

lemma takeWhile_take_length: "take (length (takeWhile P x)) x = takeWhile P x"
  by (induction x) auto

lemma dropWhile_drop_length: "drop (length (takeWhile P x)) x = dropWhile P x"
  by (induction x) auto

lemma rx_body:
  "rx_match (Many not_rbrace (Suc 0) # chars [rbrace, rbrace]) x
     = (if takeWhile not_rbrace x \<noteq> [] \<and> take 2 (dropWhile not_rbrace x) = [rbrace, rbrace]
        then Some [takeWhile not_rbrace x, [rbrace], [rbrace]] else None)"
proof -
  let ?N = "length (takeWhile not_rbrace x)"
  let ?f = "\<lambda>k. map_option (Cons (take k x)) (rx_match (chars [rbrace, rbrace]) (drop k x))"
  show ?thesis
  proof (cases "1 \<le> ?N")
    case False
    then have "?N = 0" by arith
    then have "takeWhile not_rbrace x = []" by (simp only: length_0_conv)
    moreover from False have "first_down ?f 1 ?N = None" by (cases ?N) auto
    ultimately show ?thesis by simp
  next
    case True
    have "first_down ?f 1 ?N = ?f ?N"
    proof (rule first_down_only_top)
      fix j assume j: "1 \<le> j" "j < ?N"
      then have "j < length x" using length_takeWhile_le[of not_rbrace x] by simp
      moreover from j have "x ! j \<noteq> rbrace"
        using nth_length_takeWhile takeWhile_nth nth_mem set_takeWhileD
        by (metis (mono_tags, lifting))
      ultimately have "take 2 (drop j x) \<noteq> [rbrace, rbrace]"
        by (cases "drop j x") (auto simp: hd_drop_conv_nth dest: arg_cong[where f = hd])
      then show "?f j = None" by (simp add: rx_close)
    qed (rule True)
    moreover from True have "takeWhile not_rbrace x \<noteq> []" by auto
    ultimately show ?thesis
      by (simp add: rx_close takeWhile_take_length dropWhile_drop_length)
  qed
qed


declare rx_match.simps [simp del]

lemma strip_prefix_Some: "strip_prefix p s = Some r \<longleftrightarrow> s = p @ r"
  by (induction p s rule: strip_prefix.induct) auto

lemma concat_singletons: "concat (map (\<lambda>c. [c]) t) = t"
  by (induction t) auto

lemma profile_dot_facts:
  "profile_dot \<noteq> []" "hd profile_dot = 112" "last profile_dot = 46"
  by (simp_all add: profile_dot_def asc_def)

lemma nth_takeWhile_holds: "j < length (takeWhile P x) \<Longrightarrow> P (x ! j)"
  by (metis nth_mem set_takeWhileD takeWhile_nth)

lemma drop_in_takeWhile:
  assumes "j < length (takeWhile P x)"
  shows "\<exists>t. drop j x = (x ! j) # t \<and> P (x ! j)"
proof -
  from assms have "j < length x" using length_takeWhile_le[of P x] by simp
  then have "drop j x = (x ! j) # drop (Suc j) x" by (simp add: Cons_nth_drop_Suc)
  with nth_takeWhile_holds[OF assms] show ?thesis by blast
qed

lemma rx_profile_ws:
  "rx_match (Many is_ws 0 # chars profile_dot @ X) r
     = (case rx_match (chars profile_dot @ X) (dropWhile is_ws r) of
          None \<Rightarrow> None
        | Some ls \<Rightarrow> Some (takeWhile is_ws r # ls))"
proof -
  let ?L = "length (takeWhile is_ws r)"
  let ?h = "\<lambda>k. map_option (Cons (take k r)) (rx_match (chars profile_dot @ X) (drop k r))"
  have "first_down ?h 0 ?L = ?h ?L"
  proof (rule first_down_only_top)
    fix j assume "j < ?L"
    from drop_in_takeWhile[OF this] obtain t where t: "drop j r = (r ! j) # t" "is_ws (r ! j)"
      by blast
    have ps: "profile_dot = 112 # asc ''rofile.''"
      by (simp add: profile_dot_def asc_def)
    have "\<not> is_ws 112" by (simp add: is_ws_def)
    with t have "strip_prefix profile_dot (drop j r) = None" by (subst ps) auto
    then show "?h j = None" by (simp add: rx_chars)
  qed simp
  then show ?thesis
    by (simp add: rx_match.simps(3) takeWhile_take_length dropWhile_drop_length
        split: option.splits)
qed

lemma profile_match_closed:
  "profile_match s =
     (case strip_prefix [lbrace, lbrace] s of
        None \<Rightarrow> None
      | Some r1 \<Rightarrow>
          (case strip_prefix profile_dot (dropWhile is_ws r1) of
             None \<Rightarrow> None
           | Some r3 \<Rightarrow>
               (let r4 = dropWhile not_rbrace r3
                in if takeWhile not_rbrace r3 \<noteq> [] \<and> take 2 r4 = [rbrace, rbrace]
                   then Some (length s - length r4 + 2)
                   else None)))"
proof (cases "strip_prefix [lbrace, lbrace] s")
  case None
  then show ?thesis by (simp add: profile_match_def profile_rx_def rx_chars)
next
  case (Some r1)
  then have s: "s = [lbrace, lbrace] @ r1" by (simp add: strip_prefix_Some)
  show ?thesis
  proof (cases "strip_prefix profile_dot (dropWhile is_ws r1)")
    case None
    with Some show ?thesis
      by (simp add: profile_match_def profile_rx_def rx_chars[of "[lbrace, lbrace]"]
          rx_profile_ws rx_chars[of profile_dot])
  next
    case r3: (Some r3)
    then have d: "dropWhile is_ws r1 = profile_dot @ r3" by (simp add: strip_prefix_Some)
    have "r1 = takeWhile is_ws r1 @ dropWhile is_ws r1" by simp
    with d have r1: "r1 = takeWhile is_ws r1 @ profile_dot @ r3" by simp
    have "r3 = takeWhile not_rbrace r3 @ dropWhile not_rbrace r3" by simp
    then have "length r3 = length (takeWhile not_rbrace r3) + length (dropWhile not_rbrace r3)"
      by (metis length_append)
    with r1 s have len: "length s = 2 + length (takeWhile is_ws r1) + length profile_dot
        + length (takeWhile not_rbrace r3) + length (dropWhile not_rbrace r3)"
      by (metis (no_types, lifting) add.assoc add_2_eq_Suc length_Cons length_append list.size(3) append_Cons append_Nil)
    show ?thesis
      using Some r3 len
      by (simp add: profile_match_def profile_rx_def rx_chars[of "[lbrace, lbrace]"]
          rx_profile_ws rx_chars[of profile_dot] rx_body
          concat_singletons Let_def)
  qed
qed


lemma ws_not_rbrace: "is_ws c \<Longrightarrow> c \<noteq> rbrace"
  by (auto simp: is_ws_def)

lemma rx_tail:
  "rx_match (Many is_ws 0 # chars [rbrace, rbrace]) y
     = (if take 2 (dropWhile is_ws y) = [rbrace, rbrace]
        then Some [takeWhile is_ws y, [rbrace], [rbrace]] else None)"
proof -
  let ?J = "length (takeWhile is_ws y)"
  let ?f = "\<lambda>k. map_option (Cons (take k y)) (rx_match (chars [rbrace, rbrace]) (drop k y))"
  have "first_down ?f 0 ?J = ?f ?J"
  proof (rule first_down_only_top)
    fix j assume "j < ?J"
    from drop_in_takeWhile[OF this] obtain t where "drop j y = (y ! j) # t" "is_ws (y ! j)"
      by blast
    then have "take 2 (drop j y) \<noteq> [rbrace, rbrace]" by (auto dest: ws_not_rbrace)
    then show "?f j = None" by (simp add: rx_close)
  qed simp
  then show ?thesis
    by (simp add: rx_match.simps(3) rx_close takeWhile_take_length dropWhile_drop_length)
qed

lemma dropWhile_ws_closing:
  "rbrace \<notin> set u \<Longrightarrow> x' = [] \<or> hd x' = rbrace
     \<Longrightarrow> take 2 (dropWhile is_ws (u @ x')) = [rbrace, rbrace] \<Longrightarrow> take 2 x' = [rbrace, rbrace]"
proof (induction u)
  case Nil
  then show ?case by (cases x') (auto split: if_splits dest: ws_not_rbrace)
next
  case (Cons c u)
  then show ?case by (cases "is_ws c") auto
qed

lemma drop_within_takeWhile:
  "j \<le> length (takeWhile P x) \<Longrightarrow> drop j x = drop j (takeWhile P x) @ dropWhile P x"
  using drop_append[of j "takeWhile P x" "dropWhile P x"] by simp

lemma dropWhile_not_rbrace_head:
  "dropWhile not_rbrace x = [] \<or> hd (dropWhile not_rbrace x) = rbrace"
  using hd_dropWhile[of not_rbrace x] by auto

lemma rx_group:
  "rx_match (Many not_rbrace (Suc 0) # Many is_ws 0 # chars [rbrace, rbrace]) x
     = (if takeWhile not_rbrace x \<noteq> [] \<and> take 2 (dropWhile not_rbrace x) = [rbrace, rbrace]
        then Some [takeWhile not_rbrace x, [], [rbrace], [rbrace]] else None)"
proof -
  let ?w = "takeWhile not_rbrace x" and ?x' = "dropWhile not_rbrace x"
  let ?N = "length ?w"
  let ?f = "\<lambda>k. map_option (Cons (take k x))
                  (rx_match (Many is_ws 0 # chars [rbrace, rbrace]) (drop k x))"
  have "\<not> is_ws rbrace" by (simp add: is_ws_def)
  then have hd: "\<And>z. z = [] \<or> hd z = rbrace \<Longrightarrow> dropWhile is_ws z = z \<and> takeWhile is_ws z = []"
    by (case_tac z) auto
  from hd[OF dropWhile_not_rbrace_head[of x]]
  have dw: "dropWhile is_ws ?x' = ?x'" and tw: "takeWhile is_ws ?x' = []"
    by blast+
  have top: "?f ?N = (if take 2 ?x' = [rbrace, rbrace] then Some [?w, [], [rbrace], [rbrace]] else None)"
    unfolding takeWhile_take_length dropWhile_drop_length rx_tail dw tw by simp
  show ?thesis
  proof (cases "?w \<noteq> [] \<and> take 2 ?x' = [rbrace, rbrace]")
    case True
    then have "1 \<le> ?N" by (cases ?w) auto
    moreover from True top have "?f ?N = Some [?w, [], [rbrace], [rbrace]]" by simp
    ultimately have "first_down ?f 1 ?N = Some [?w, [], [rbrace], [rbrace]]"
      by (rule first_down_top)
    with True show ?thesis by (simp add: rx_match.simps(3))
  next
    case False
    have "first_down ?f 1 ?N = None"
    proof (rule first_down_None)
      fix j assume j: "1 \<le> j" "j \<le> ?N"
      then have w: "?w \<noteq> []" by auto
      with False have nc: "take 2 ?x' \<noteq> [rbrace, rbrace]" by simp
      have d: "drop j x = drop j ?w @ ?x'" using j(2) by (rule drop_within_takeWhile)
      have "rbrace \<notin> set ?w" by (auto dest: set_takeWhileD)
      then have "rbrace \<notin> set (drop j ?w)" by (auto dest: in_set_dropD)
      from dropWhile_ws_closing[OF this dropWhile_not_rbrace_head[of x]] nc
      have "take 2 (dropWhile is_ws (drop j ?w @ ?x')) \<noteq> [rbrace, rbrace]"
        by blast
      then have "take 2 (dropWhile is_ws (drop j x)) \<noteq> [rbrace, rbrace]"
        unfolding d .
      then show "?f j = None" by (simp add: rx_tail)
    qed
    with False show ?thesis by (simp add: rx_match.simps(3))
  qed
qed


lemma takeWhile_ws_run: "takeWhile is_ws (takeWhile not_rbrace r) = takeWhile is_ws r"
  by (induction r) (auto dest: ws_not_rbrace)

lemma run_after_ws:
  "k \<le> length (takeWhile is_ws r) \<Longrightarrow>
     takeWhile not_rbrace (drop k r) = drop k (takeWhile not_rbrace r)
     \<and> dropWhile not_rbrace (drop k r) = dropWhile not_rbrace r"
proof (induction r arbitrary: k)
  case Nil
  show ?case by simp
next
  case (Cons c r)
  show ?case
  proof (cases k)
    case 0
    then show ?thesis by simp
  next
    case (Suc k')
    with Cons.prems have "is_ws c" "k' \<le> length (takeWhile is_ws r)"
      by (auto split: if_splits)
    with Cons.IH[of k'] Suc show ?thesis by (auto dest: ws_not_rbrace)
  qed
qed

lemma rx_token_body:
  fixes r :: jsstring
  defines "w \<equiv> takeWhile not_rbrace r"
  shows "(w \<noteq> [] \<and> take 2 (dropWhile not_rbrace r) = [rbrace, rbrace] \<longrightarrow>
            (\<exists>pre. rx_match (Many is_ws 0 # Many not_rbrace (Suc 0) # Many is_ws 0
                                 # chars [rbrace, rbrace]) r
                        = Some [pre, group1 w, [], [rbrace], [rbrace]]
                      \<and> pre @ group1 w = w))
         \<and> (\<not> (w \<noteq> [] \<and> take 2 (dropWhile not_rbrace r) = [rbrace, rbrace]) \<longrightarrow>
            rx_match (Many is_ws 0 # Many not_rbrace (Suc 0) # Many is_ws 0
                          # chars [rbrace, rbrace]) r = None)"
proof -
  let ?r' = "dropWhile not_rbrace r"
  let ?L = "length (takeWhile is_ws r)"
  let ?A = "Many not_rbrace (Suc 0) # Many is_ws 0 # chars [rbrace, rbrace]"
  let ?g = "\<lambda>k. map_option (Cons (take k r)) (rx_match ?A (drop k r))"
  have unfold: "rx_match (Many is_ws 0 # ?A) r = first_down ?g 0 ?L"
    by (rule rx_match.simps(3))
  have g: "?g k = (if drop k w \<noteq> [] \<and> take 2 ?r' = [rbrace, rbrace]
                  then Some [take k r, drop k w, [], [rbrace], [rbrace]] else None)"
    if "k \<le> ?L" for k
    using run_after_ws[OF that] by (simp add: rx_group w_def)
  have L: "?L = length (takeWhile is_ws w)" by (simp add: takeWhile_ws_run w_def)
  have tk: "take k r = take k w" if "k \<le> length w" for k
    using that take_append[of k w ?r'] by (simp add: w_def)
  show ?thesis
  proof (cases "w \<noteq> [] \<and> take 2 ?r' = [rbrace, rbrace]")
    case False
    have "first_down ?g 0 ?L = None"
    proof (rule first_down_None)
      fix j assume "j \<le> ?L"
      from g[OF this] False show "?g j = None" by auto
    qed
    with False show ?thesis unfolding unfold by blast
  next
    case True
    have "\<exists>pre. first_down ?g 0 ?L = Some [pre, group1 w, [], [rbrace], [rbrace]]
                \<and> pre @ group1 w = w"
    proof (cases "dropWhile is_ws w = []")
      case False
      then have g1: "group1 w = dropWhile is_ws w" unfolding group1_def by (rule if_not_P)
      have dl: "drop ?L w = dropWhile is_ws w" unfolding L by (rule dropWhile_drop_length)
      have Lw: "?L \<le> length w" unfolding L by (rule length_takeWhile_le)
      have "take ?L r = take ?L w" by (rule tk[OF Lw])
      also have "\<dots> = takeWhile is_ws w" unfolding L by (rule takeWhile_take_length)
      finally have pre: "take ?L r = takeWhile is_ws w" .
      from g[of ?L] True False dl
      have "?g ?L = Some [take ?L r, dropWhile is_ws w, [], [rbrace], [rbrace]]" by simp
      then have "first_down ?g 0 ?L = Some [take ?L r, dropWhile is_ws w, [], [rbrace], [rbrace]]"
        by (intro first_down_top) simp_all
      then show ?thesis unfolding pre g1 by simp
    next
      case allws: True
      then have g1: "group1 w = [last w]" by (simp add: group1_def)
      have "takeWhile is_ws w @ dropWhile is_ws w = w" by (rule takeWhile_dropWhile_id)
      then have "takeWhile is_ws w @ [] = w" unfolding allws .
      then have "length (takeWhile is_ws w) = length w" by (simp only: append_Nil2)
      then have LW: "?L = length w" unfolding L .
      from True obtain n where n: "length w = Suc n" by (cases w) auto
      have top: "?g (Suc n) = None" using g[of "Suc n"] LW n by simp
      have "butlast w = take n w" using n by (simp add: butlast_conv_take)
      moreover have "butlast w @ [last w] = w" using True by (intro append_butlast_last_id) simp
      ultimately have bl: "take n w @ [last w] = w" by simp
      have "drop n (take n w @ [last w]) = [last w]" using n by simp
      then have dn: "drop n w = [last w]" unfolding bl .
      from g[of n] LW n True dn
      have "?g n = Some [take n r, [last w], [], [rbrace], [rbrace]]" by simp
      then have "first_down ?g 0 n = Some [take n r, [last w], [], [rbrace], [rbrace]]"
        by (intro first_down_top) simp_all
      with top have "first_down ?g 0 (Suc n) = Some [take n r, [last w], [], [rbrace], [rbrace]]"
        by simp
      then show ?thesis unfolding LW n g1 using bl tk[of n] n by simp
    qed
    with True show ?thesis unfolding unfold by blast
  qed
qed

lemma token_match_closed:
  "token_match s =
     (case strip_prefix [lbrace, lbrace] s of
        None \<Rightarrow> None
      | Some r \<Rightarrow>
          (let w = takeWhile not_rbrace r; r' = dropWhile not_rbrace r
           in if w \<noteq> [] \<and> take 2 r' = [rbrace, rbrace]
              then Some ([lbrace, lbrace] @ w @ [rbrace, rbrace], group1 w, drop 2 r')
              else None))"
proof (cases "strip_prefix [lbrace, lbrace] s")
  case None
  then show ?thesis by (simp add: token_match_def token_rx_def rx_chars)
next
  case (Some r)
  then have s: "s = lbrace # lbrace # r" by (simp add: strip_prefix_Some)
  let ?w = "takeWhile not_rbrace r" and ?r' = "dropWhile not_rbrace r"
  let ?B = "Many is_ws 0 # Many not_rbrace (Suc 0) # Many is_ws 0 # chars [rbrace, rbrace]"
  have rx: "rx_match token_rx s =
      (case rx_match ?B r of None \<Rightarrow> None | Some ls \<Rightarrow> Some ([lbrace] # [lbrace] # ls))"
    using Some rx_chars[of "[lbrace, lbrace]" ?B s]
    by (auto simp: token_rx_def split: option.splits)
  show ?thesis
  proof (cases "?w \<noteq> [] \<and> take 2 ?r' = [rbrace, rbrace]")
    case False
    with rx_token_body[of r] have "rx_match ?B r = None" by blast
    with False Some show ?thesis by (auto simp: token_match_def rx Let_def)
  next
    case True
    with rx_token_body[of r] obtain pre where
      pre: "rx_match ?B r = Some [pre, group1 ?w, [], [rbrace], [rbrace]]" "pre @ group1 ?w = ?w"
      by blast
    let ?m = "concat [[lbrace], [lbrace], pre, group1 ?w, [], [rbrace], [rbrace]]"
    have "?m = [lbrace, lbrace] @ (pre @ group1 ?w) @ [rbrace, rbrace]" by simp
    then have c1: "?m = [lbrace, lbrace] @ ?w @ [rbrace, rbrace]" by (simp only: pre(2))
    have "drop (length ?w) r = ?r'" by (rule dropWhile_drop_length)
    then have "drop 2 (drop (length ?w) r) = drop 2 ?r'" by (rule arg_cong)
    then have c2: "drop (length ([lbrace, lbrace] @ ?w @ [rbrace, rbrace])) s = drop 2 ?r'"
      unfolding s by (simp add: add.commute)
    have tm: "token_match s = Some (?m, group1 ?w, drop (length ?m) s)"
      by (simp add: token_match_def rx pre(1))
    have "token_match s
            = Some ([lbrace, lbrace] @ ?w @ [rbrace, rbrace], group1 ?w, drop 2 ?r')"
      unfolding tm c1 c2 ..
    with True Some show ?thesis by (simp add: Let_def)
  qed
qed

section \<open>The scanner\<close>

lemma token_match_SomeD:
  assumes "token_match s = Some (m, tok, rest)"
  shows "\<exists>w. w \<noteq> [] \<and> rbrace \<notin> set w \<and> m = [lbrace, lbrace] @ w @ [rbrace, rbrace]
           \<and> tok = group1 w \<and> s = m @ rest"
proof -
  from assms obtain r where r: "s = [lbrace, lbrace] @ r"
    by (auto simp: token_match_closed strip_prefix_Some split: option.splits)
  let ?w = "takeWhile not_rbrace r" and ?r' = "dropWhile not_rbrace r"
  from assms r have w: "?w \<noteq> []" and t: "take 2 ?r' = [rbrace, rbrace]"
    and m: "m = [lbrace, lbrace] @ ?w @ [rbrace, rbrace]" and tok: "tok = group1 ?w"
    and rest: "rest = drop 2 ?r'"
    by (auto simp: token_match_closed Let_def split: option.splits if_splits)
  have "r = ?w @ ?r'" by simp
  also have "?r' = take 2 ?r' @ drop 2 ?r'" by simp
  finally have "r = ?w @ [rbrace, rbrace] @ rest" using t rest by simp
  moreover have "rbrace \<notin> set ?w" by (auto dest: set_takeWhileD)
  ultimately show ?thesis using w m tok r by auto
qed

lemma token_match_intro:
  assumes "w \<noteq> []" "rbrace \<notin> set w"
  shows "token_match ([lbrace, lbrace] @ w @ [rbrace, rbrace] @ rest)
           = Some ([lbrace, lbrace] @ w @ [rbrace, rbrace], group1 w, rest)"
proof -
  have 1: "takeWhile not_rbrace (w @ rbrace # rbrace # rest) = w"
    using assms(2) by (induction w) auto
  have 2: "dropWhile not_rbrace (w @ rbrace # rbrace # rest) = rbrace # rbrace # rest"
    using assms(2) by (induction w) auto
  show ?thesis using assms by (simp add: token_match_closed 1 2)
qed

lemma pieces_Nil [simp]: "pieces [] = []"
  by (simp add: pieces.simps token_match_closed)

lemma pieces_match: "token_match s = Some (m, tok, rest) \<Longrightarrow> pieces s = Matched m tok # pieces rest"
  by (subst pieces.simps) simp

lemma pieces_no_match: "token_match (c # cs) = None \<Longrightarrow> pieces (c # cs) = Unmatched c # pieces cs"
  by (subst pieces.simps) simp

lemma pieces_cases_induct [case_names Nil Unmatched Matched]:
  assumes "P []"
    and "\<And>c cs. token_match (c # cs) = None \<Longrightarrow> P cs \<Longrightarrow> P (c # cs)"
    and "\<And>s m tok rest. token_match s = Some (m, tok, rest) \<Longrightarrow> P rest \<Longrightarrow> P s"
  shows "P s"
proof (induction s rule: pieces.induct)
  case (1 s)
  show ?case
  proof (cases "token_match s")
    case None
    show ?thesis
    proof (cases s)
      case Nil
      then show ?thesis using assms(1) by simp
    next
      case (Cons c cs)
      with None 1(1) assms(2) show ?thesis by simp
    qed
  next
    case (Some x)
    then obtain m tok rest where x: "token_match s = Some (m, tok, rest)" by (cases x) auto
    from 1(2)[OF x refl refl] assms(3)[OF x] show ?thesis by blast
  qed
qed

lemma pieces_concat: "concat (map piece_text (pieces s)) = s"
proof (induction s rule: pieces_cases_induct)
  case Nil
  show ?case by simp
next
  case (Unmatched c cs)
  then show ?case by (simp add: pieces_no_match)
next
  case (Matched s m tok rest)
  from token_match_SomeD[OF Matched(1)] have "s = m @ rest" by blast
  with Matched show ?case by (simp add: pieces_match)
qed

lemma has_close_append: "has_close (w @ rbrace # rbrace # x)"
  by (induction w rule: has_close.induct) auto

lemma token_match_has_syntax: "token_match s = Some x \<Longrightarrow> has_token_syntax s"
proof -
  assume "token_match s = Some x"
  then obtain m tok rest where "token_match s = Some (m, tok, rest)" by (cases x) auto
  from token_match_SomeD[OF this] obtain w where "s = lbrace # lbrace # w @ rbrace # rbrace # rest"
    by auto
  then show ?thesis using has_close_append[of w rest] by simp
qed

lemma has_token_syntax_Cons: "has_token_syntax cs \<Longrightarrow> has_token_syntax (c # cs)"
  by (cases cs) auto

lemma pieces_plain: "\<not> has_token_syntax t \<Longrightarrow> pieces t = map Unmatched t"
proof (induction t)
  case Nil
  then show ?case by simp
next
  case (Cons c cs)
  then have "token_match (c # cs) = None" using token_match_has_syntax by (cases "token_match (c # cs)") auto
  moreover have "\<not> has_token_syntax cs" using Cons.prems has_token_syntax_Cons by blast
  ultimately show ?case using Cons.IH by (simp add: pieces_no_match)
qed

lemma run_replacer_plain: "run_replacer tbl (map Unmatched t) li = (map (\<lambda>c. [c]) t, li)"
  by (induction t) auto

lemma replacer_unknown: "tbl (trim tok) = None \<Longrightarrow> fst (replacer tbl m tok li) = m"
  by (simp add: replacer_def Let_def split: prod.splits)

lemma run_replacer_length: "length (fst (run_replacer tbl ps li)) = length ps"
  by (induction tbl ps li rule: run_replacer.induct) (auto split: prod.splits)

lemma run_replacer_unknown:
  "i < length ps \<Longrightarrow> ps ! i = Matched m tok \<Longrightarrow> tbl (trim tok) = None
     \<Longrightarrow> fst (run_replacer tbl ps li) ! i = m"
proof (induction tbl ps li arbitrary: i rule: run_replacer.induct)
  case (1 tbl lastIndex)
  then show ?case by simp
next
  case (2 tbl c ps lastIndex)
  then show ?case by (cases i) (auto split: prod.splits)
next
  case (3 tbl m' tok' ps lastIndex)
  show ?case
  proof (cases i)
    case 0
    then show ?thesis using 3(2-) replacer_unknown[of tbl tok m lastIndex]
      by (auto split: prod.splits)
  next
    case (Suc j)
    then show ?thesis using 3(2-) 3(1)[of "(fst (replacer tbl m' tok' lastIndex), snd (replacer tbl m' tok' lastIndex))" "fst (replacer tbl m' tok' lastIndex)" "snd (replacer tbl m' tok' lastIndex)" j]
      by (auto split: prod.splits)
  qed
qed

section \<open>One pass and the next\<close>

lemma scan_Nil [simp]: "scan tbl [] = []"
  by (simp add: scan_def)

lemma scan_no_match: "token_match (c # cs) = None \<Longrightarrow> scan tbl (c # cs) = c # scan tbl cs"
  by (simp add: scan_def pieces_no_match)

lemma scan_match:
  "token_match s = Some (m, tok, rest) \<Longrightarrow>
     scan tbl s = (case tbl (trim tok) of Some v \<Rightarrow> v | None \<Rightarrow> m) @ scan tbl rest"
  by (simp add: scan_def pieces_match)

lemma token_match_head: "token_match (c # cs) = Some x \<Longrightarrow> c = lbrace"
  by (auto simp: token_match_closed split: option.splits if_splits)

lemma token_match_iff:
  "token_match (lbrace # lbrace # r) = None \<longleftrightarrow> \<not> (r \<noteq> [] \<and> hd r \<noteq> rbrace \<and> closes r)"
  by (cases r) (auto simp: token_match_closed closes_def Let_def)

lemma token_match_None_cases:
  "token_match (c # cs) = None \<longleftrightarrow>
     \<not> (c = lbrace \<and> (\<exists>r. cs = lbrace # r \<and> r \<noteq> [] \<and> hd r \<noteq> rbrace \<and> closes r))"
proof (cases "c = lbrace \<and> (\<exists>r. cs = lbrace # r)")
  case True
  then obtain r where "c = lbrace" "cs = lbrace # r" by blast
  then show ?thesis by (simp add: token_match_iff)
next
  case False
  then have "token_match (c # cs) = None"
    by (cases cs) (auto simp: token_match_closed)
  with False show ?thesis by auto
qed

lemma closes_Cons: "closes (c # s) \<longleftrightarrow> (if c = rbrace then take 1 s = [rbrace] else closes s)"
  by (cases s) (auto simp: closes_def)

lemma closes_match: "rbrace \<notin> set w \<Longrightarrow> closes (w @ rbrace # rbrace # rest)"
  by (induction w) (auto simp: closes_def)

lemma scan_plain_prefix: "lbrace \<notin> set v \<Longrightarrow> scan tbl (v @ y) = v @ scan tbl y"
proof (induction v)
  case Nil
  show ?case by simp
next
  case (Cons c v)
  then have "token_match (c # v @ y) = None"
    by (cases "token_match (c # v @ y)") (auto dest: token_match_head)
  with Cons show ?case by (simp add: scan_no_match)
qed

lemma scan_head_rbrace:
  assumes vals: "\<forall>k v. tbl k = Some v \<longrightarrow> plain_value v"
    and "scan tbl s = rbrace # z"
  shows "\<exists>s'. s = rbrace # s' \<and> scan tbl s' = z"
proof (cases "token_match s")
  case None
  with assms(2) show ?thesis by (cases s) (auto simp: scan_no_match)
next
  case (Some x)
  then obtain m tok rest where x: "token_match s = Some (m, tok, rest)" by (cases x) auto
  from token_match_SomeD[OF x] obtain w where m: "m = [lbrace, lbrace] @ w @ [rbrace, rbrace]" by blast
  show ?thesis
  proof (cases "tbl (trim tok)")
    case None
    with x m assms(2) show ?thesis by (simp add: scan_match)
  next
    case (Some v)
    with vals have "plain_value v" by blast
    then obtain a v' where "v = a # v'" "a \<noteq> rbrace" by (cases v) (auto simp: plain_value_def)
    with x Some assms(2) show ?thesis by (simp add: scan_match)
  qed
qed

lemma closes_scan:
  assumes vals: "\<forall>k v. tbl k = Some v \<longrightarrow> plain_value v"
  shows "closes (scan tbl s) \<Longrightarrow> closes s"
proof (induction s rule: pieces_cases_induct)
  case Nil
  then show ?case by simp
next
  case (Unmatched c cs)
  show ?case
  proof (cases "c = rbrace")
    case True
    with Unmatched have "take 1 (scan tbl cs) = [rbrace]" by (simp add: scan_no_match closes_Cons)
    then obtain z where "scan tbl cs = rbrace # z" by (cases "scan tbl cs") auto
    from scan_head_rbrace[OF vals this] obtain s' where "cs = rbrace # s'" by blast
    with True show ?thesis by (simp add: closes_Cons)
  next
    case False
    with Unmatched show ?thesis by (simp add: scan_no_match closes_Cons)
  qed
next
  case (Matched s m tok rest)
  from token_match_SomeD[OF Matched(1)] obtain w where
    "rbrace \<notin> set w" "s = lbrace # lbrace # w @ rbrace # rbrace # rest" by auto
  then show ?case using closes_match[of w rest] by (simp add: closes_Cons)
qed

lemma token_match_scan_None:
  assumes vals: "\<forall>k v. tbl k = Some v \<longrightarrow> plain_value v"
    and none: "token_match (c # cs) = None"
  shows "token_match (c # scan tbl cs) = None"
proof (rule ccontr)
  assume "token_match (c # scan tbl cs) \<noteq> None"
  then obtain r' where c: "c = lbrace" and sc: "scan tbl cs = lbrace # r'"
    and r': "r' \<noteq> []" "hd r' \<noteq> rbrace" "closes r'"
    by (auto simp: token_match_None_cases)
  show False
  proof (cases "token_match cs")
    case (Some x)
    then obtain m tok rest where x: "token_match cs = Some (m, tok, rest)" by (cases x) auto
    from token_match_SomeD[OF x] obtain w where
      w: "rbrace \<notin> set w" "cs = lbrace # lbrace # w @ rbrace # rbrace # rest" by auto
    have "closes (lbrace # w @ rbrace # rbrace # rest)"
      using closes_match[OF w(1), of rest] by (simp add: closes_Cons)
    with none c w(2) show False by (auto simp: token_match_None_cases)
  next
    case None
    with sc obtain cs' where cs: "cs = lbrace # cs'" and sc': "scan tbl cs' = r'"
      by (cases cs) (auto simp: scan_no_match)
    from r'(3) sc' closes_scan[OF vals] have 1: "closes cs'" by blast
    from r'(1) sc' have 2: "cs' \<noteq> []" by auto
    have 3: "hd cs' \<noteq> rbrace"
    proof
      assume "hd cs' = rbrace"
      with 2 obtain x where x: "cs' = rbrace # x" by (cases cs') auto
      then have "token_match cs' = None" by (auto simp: token_match_None_cases)
      with x sc' r'(2) show False by (auto simp: scan_no_match)
    qed
    from none c cs 1 2 3 show False by (auto simp: token_match_None_cases)
  qed
qed

lemma scan_idempotent:
  assumes vals: "\<forall>k v. tbl k = Some v \<longrightarrow> plain_value v"
  shows "scan tbl (scan tbl t) = scan tbl t"
proof (induction t rule: pieces_cases_induct)
  case Nil
  show ?case by simp
next
  case (Unmatched c cs)
  from token_match_scan_None[OF vals Unmatched(1)] Unmatched show ?case
    by (simp add: scan_no_match)
next
  case (Matched s m tok rest)
  show ?case
  proof (cases "tbl (trim tok)")
    case None
    from token_match_SomeD[OF Matched(1)] obtain w where
      w: "w \<noteq> []" "rbrace \<notin> set w" "m = [lbrace, lbrace] @ w @ [rbrace, rbrace]" "tok = group1 w" by blast
    have "scan tbl (m @ scan tbl rest) = m @ scan tbl (scan tbl rest)"
      using scan_match[OF token_match_intro[OF w(1,2), of "scan tbl rest"], of tbl] w None by simp
    with Matched None show ?thesis by (simp add: scan_match)
  next
    case (Some v)
    with vals have "lbrace \<notin> set v" by (auto simp: plain_value_def)
    with Matched Some show ?thesis by (simp add: scan_match scan_plain_prefix)
  qed
qed


lemma profile_match_sublist: "profile_match u = Some n \<Longrightarrow> sublist profile_dot u"
proof -
  assume a: "profile_match u = Some n"
  then obtain r1 where r1: "u = [lbrace, lbrace] @ r1"
    by (auto simp: profile_match_closed strip_prefix_Some split: option.splits)
  with a obtain r3 where "dropWhile is_ws r1 = profile_dot @ r3"
    by (auto simp: profile_match_closed strip_prefix_Some split: option.splits)
  then have "r1 = takeWhile is_ws r1 @ profile_dot @ r3"
    by (metis takeWhile_dropWhile_id)
  with r1 have "u = ([lbrace, lbrace] @ takeWhile is_ws r1) @ profile_dot @ r3" by simp
  then show ?thesis by (metis sublist_appendI)
qed

lemma profile_search_sublist: "profile_search s i = Some e \<Longrightarrow> sublist profile_dot s"
proof (induction s arbitrary: i)
  case Nil
  then show ?case by simp
next
  case (Cons c cs)
  show ?case
  proof (cases "profile_match (c # cs)")
    case None
    with Cons show ?thesis by (auto simp: sublist_Cons_right)
  next
    case (Some n)
    then show ?thesis by (rule profile_match_sublist)
  qed
qed

lemma test_sublist: "fst (PROFILE_TOKEN_REGEX_test m li) \<Longrightarrow> sublist profile_dot m"
proof -
  assume "fst (PROFILE_TOKEN_REGEX_test m li)"
  then obtain e where "profile_search (drop li m) li = Some e"
    by (auto simp: PROFILE_TOKEN_REGEX_test_def split: if_splits option.splits)
  then have "sublist profile_dot (drop li m)" by (rule profile_search_sublist)
  then show ?thesis using sublist_drop[of li m] by (rule sublist_order.order.trans)
qed

lemma sublist_Cons_fresh: "sublist p (c # s) \<Longrightarrow> p \<noteq> [] \<Longrightarrow> hd p \<noteq> c \<Longrightarrow> sublist p s"
  by (cases p) (auto simp: sublist_Cons_right)

lemma sublist_snoc_fresh: "sublist p (s @ [c]) \<Longrightarrow> p \<noteq> [] \<Longrightarrow> last p \<noteq> c \<Longrightarrow> sublist p s"
  using sublist_Cons_fresh[of "rev p" c "rev s"] by (simp add: sublist_rev_left hd_rev)

lemma sublist_dropWhile_fresh:
  "sublist p s \<Longrightarrow> p \<noteq> [] \<Longrightarrow> \<not> P (hd p) \<Longrightarrow> sublist p (dropWhile P s)"
proof (induction s)
  case Nil
  then show ?case by simp
next
  case (Cons c s)
  show ?case
  proof (cases "P c")
    case True
    with Cons.prems have "sublist p s" by (auto intro: sublist_Cons_fresh)
    with Cons True show ?thesis by simp
  next
    case False
    with Cons.prems show ?thesis by simp
  qed
qed

lemma sublist_trim:
  assumes "sublist p s" "p \<noteq> []" "\<not> is_ws (hd p)" "\<not> is_ws (last p)"
  shows "sublist p (trim s)"
proof -
  from assms have "sublist p (dropWhile is_ws s)" by (intro sublist_dropWhile_fresh)
  then have "sublist (rev p) (rev (dropWhile is_ws s))" by simp
  with assms have "sublist (rev p) (dropWhile is_ws (rev (dropWhile is_ws s)))"
    by (intro sublist_dropWhile_fresh) (simp_all add: hd_rev)
  then show ?thesis by (simp add: trim_def sublist_rev_right)
qed

lemma profile_test_token:
  assumes "w \<noteq> []" "rbrace \<notin> set w"
    and "fst (PROFILE_TOKEN_REGEX_test ([lbrace, lbrace] @ w @ [rbrace, rbrace]) li)"
  shows "sublist profile_dot (trim (group1 w))"
proof -
  note pf = profile_dot_facts
  have ws: "\<not> is_ws 112" "\<not> is_ws 46" by (simp_all add: is_ws_def)
  from assms(3) have "sublist profile_dot (lbrace # lbrace # (w @ [rbrace]) @ [rbrace])"
    using test_sublist by fastforce
  then have "sublist profile_dot (lbrace # (w @ [rbrace]) @ [rbrace])"
    by (rule sublist_Cons_fresh) (simp_all add: pf)
  then have "sublist profile_dot ((w @ [rbrace]) @ [rbrace])"
    by (rule sublist_Cons_fresh) (simp_all add: pf)
  then have "sublist profile_dot (w @ [rbrace])"
    by (rule sublist_snoc_fresh) (simp_all add: pf)
  then have w: "sublist profile_dot w"
    by (rule sublist_snoc_fresh) (simp_all add: pf)
  then have d: "sublist profile_dot (dropWhile is_ws w)"
    by (rule sublist_dropWhile_fresh) (simp_all add: pf ws)
  have "dropWhile is_ws w \<noteq> []"
  proof
    assume "dropWhile is_ws w = []"
    with d have "profile_dot = []" by simp
    with pf(1) show False by simp
  qed
  then have "group1 w = dropWhile is_ws w" unfolding group1_def by (rule if_not_P)
  with d show ?thesis by (simp add: sublist_trim pf ws)
qed

lemma replacer_pure:
  assumes keys: "\<forall>k \<in> dom tbl. \<not> sublist profile_dot k"
    and "w \<noteq> []" "rbrace \<notin> set w"
  shows "fst (replacer tbl ([lbrace, lbrace] @ w @ [rbrace, rbrace]) (group1 w) li)
           = substitute tbl (Matched ([lbrace, lbrace] @ w @ [rbrace, rbrace]) (group1 w))"
proof (cases "fst (PROFILE_TOKEN_REGEX_test ([lbrace, lbrace] @ w @ [rbrace, rbrace]) li)")
  case True
  from profile_test_token[OF assms(2,3) True] keys have "tbl (trim (group1 w)) = None"
    by (auto simp: dom_def)
  with True show ?thesis by (simp add: replacer_def split_beta)
next
  case False
  then show ?thesis by (simp add: replacer_def split_beta split: option.splits)
qed

lemma run_replacer_pure:
  assumes keys: "\<forall>k \<in> dom tbl. \<not> sublist profile_dot k"
  shows "fst (run_replacer tbl (pieces t) li) = map (substitute tbl) (pieces t)"
proof (induction t arbitrary: li rule: pieces_cases_induct)
  case Nil
  show ?case by simp
next
  case (Unmatched c cs)
  then show ?case by (simp add: pieces_no_match split_beta)
next
  case (Matched s m tok rest)
  from token_match_SomeD[OF Matched(1)] obtain w where
    w: "w \<noteq> []" "rbrace \<notin> set w" "m = [lbrace, lbrace] @ w @ [rbrace, rbrace]" "tok = group1 w" by blast
  from replacer_pure[OF keys w(1,2), of li] w
  have "fst (replacer tbl m tok li) = substitute tbl (Matched m tok)" by simp
  with Matched show ?case by (simp add: pieces_match split_beta)
qed

lemma string_replace_pure:
  assumes keys: "\<forall>k \<in> dom tbl. \<not> sublist profile_dot k"
  shows "fst (string_replace tbl t li) = scan tbl t"
  using run_replacer_pure[OF keys, of t li]
  by (simp add: string_replace_def scan_def split_beta)

lemma run_replacer_all_unknown:
  "\<forall>m tok. Matched m tok \<in> set ps \<longrightarrow> tbl (trim tok) = None
     \<Longrightarrow> fst (run_replacer tbl ps li) = map piece_text ps"
proof (induction tbl ps li rule: run_replacer.induct)
  case (1 tbl lastIndex)
  show ?case by simp
next
  case (2 tbl c ps lastIndex)
  then show ?case by (simp add: split_beta)
next
  case (3 tbl m tok ps lastIndex)
  from 3(2) have "fst (replacer tbl m tok lastIndex) = m" by (simp add: replacer_unknown)
  moreover from 3 have "fst (run_replacer tbl ps (snd (replacer tbl m tok lastIndex))) = map piece_text ps"
    by (metis list.set_intros(2) prod.collapse)
  ultimately show ?case by (simp add: split_beta)
qed

lemma string_replace_all_unknown:
  "\<forall>m tok. Matched m tok \<in> set (pieces t) \<longrightarrow> tbl (trim tok) = None
     \<Longrightarrow> fst (string_replace tbl t li) = t"
  by (simp add: string_replace_def split_beta run_replacer_all_unknown pieces_concat)

section \<open>The steps of the publish action\<close>

lemma resolve_resolvable:
  "resolvable v \<Longrightarrow> \<exists>r l. resolveStaticTokens v tbl li = (Inr r, l)"
  by (cases v) (auto simp: resolveStaticTokens_def split_beta)

lemma build_payload_fields:
  "build_payload els cid ttl tbl li = (Inr p, l) \<Longrightarrow>
     cardId p = cid \<and> image p = js_or (field els ''image'') Null
     \<and> ctaAction p = js_or (field els ''ctaAction'') (Str (asc ''browser''))
     \<and> cacheTTL p = ttl"
  by (auto simp: build_payload_def split: prod.splits sum.splits)

lemma build_payload_total:
  assumes "resolvable (field els ''headline'')" "resolvable (field els ''body'')"
    "resolvable (field els ''ctaLabel'')" "resolvable (field els ''termsText'')"
  shows "\<exists>p l. build_payload els cid ttl tbl li = (Inr p, l)"
proof -
  from resolve_resolvable[OF assms(1)] obtain h l1 where
    1: "resolveStaticTokens (field els ''headline'') tbl li = (Inr h, l1)" by blast
  from resolve_resolvable[OF assms(2)] obtain b l2 where
    2: "resolveStaticTokens (field els ''body'') tbl l1 = (Inr b, l2)" by blast
  from resolve_resolvable[OF assms(3)] obtain c l3 where
    3: "resolveStaticTokens (field els ''ctaLabel'') tbl l2 = (Inr c, l3)" by blast
  from resolve_resolvable[OF assms(4)] obtain t l4 where
    4: "resolveStaticTokens (field els ''termsText'') tbl l3 = (Inr t, l4)" by blast
  show ?thesis by (simp add: build_payload_def 1 2 3 4)
qed

lemma main_missing:
  "missing (cfPath ps) \<or> missing (authorHost ps) \<or> missing (publishHost ps) \<Longrightarrow>
     main digits fetch ps li = (Returned 400 (Message (asc ''Missing required parameters'')), [], li)"
  by (simp add: main_def)

lemma main_fetched:
  assumes "\<not> missing (cfPath ps)" "\<not> missing (authorHost ps)" "\<not> missing (publishHost ps)"
    and "fetch (get_request (cfUrl_of ps) (authorAccessToken ps)) = Ok_json cfJson"
  shows "main digits fetch ps li =
     (let els = elements_of cfJson; cid = field els ''cardId''
      in if \<not> truthy cid
         then (Returned 422 (Message (asc ''cardId is required'')),
               [get_request (cfUrl_of ps) (authorAccessToken ps)], li)
         else (case build_payload els cid (ttl_of els) (table_of ps) li of
                 (Inl e, l') \<Rightarrow> (Thrown e, [get_request (cfUrl_of ps) (authorAccessToken ps)], l')
               | (Inr pl, l') \<Rightarrow>
                   (case fetch (put_request digits (publishUrl_of digits ps cid)
                                  (publishAccessToken ps) pl (ttl_of els)) of
                      Rejected \<Rightarrow> Thrown FetchRejected
                    | Not_ok status txt \<Rightarrow> Thrown (AEM_publish_write_failed status txt)
                    | Ok_not_json \<Rightarrow> Thrown InvalidJson
                    | Ok_json j \<Rightarrow>
                        Returned 200 (Published (asc ''Card payload published'')
                                        (publishUrl_of digits ps cid)),
                    [get_request (cfUrl_of ps) (authorAccessToken ps),
                     put_request digits (publishUrl_of digits ps cid)
                       (publishAccessToken ps) pl (ttl_of els)], l')))"
  using assms
  by (simp add: main_def fetchAemJson_def putAemJson_def Let_def cfUrl_of_def table_of_def
      ttl_of_def publishUrl_of_def split: prod.splits sum.splits response.splits)

section \<open>The end-to-end example\<close>

lemma test_no_profile:
  "\<not> sublist profile_dot m \<Longrightarrow> PROFILE_TOKEN_REGEX_test m li = (False, 0)"
  using test_sublist[of m li]
  by (auto simp: PROFILE_TOKEN_REGEX_test_def split: option.splits)

lemma replacer_no_profile:
  "\<not> sublist profile_dot m \<Longrightarrow>
     replacer tbl m tok li = (case tbl (trim tok) of Some v \<Rightarrow> v | None \<Rightarrow> m, 0)"
  by (simp add: replacer_def test_no_profile split: option.splits)

lemma cup_headline:
  "resolveStaticTokens (Str (asc ''Hi {{env.brand}}, {{profile.name}}''))
     [asc ''env.brand'' \<mapsto> asc ''Acme''] li
   = (Inr (Str (asc ''Hi Acme, {{profile.name}}'')), 16)"
proof -
  have p: "pieces (asc ''Hi {{env.brand}}, {{profile.name}}'')
    = [Unmatched 72, Unmatched 105, Unmatched 32,
       Matched (asc ''{{env.brand}}'') (asc ''env.brand''),
       Unmatched 44, Unmatched 32,
       Matched (asc ''{{profile.name}}'') (asc ''profile.name'')]"
    by code_simp
  have n: "\<not> sublist profile_dot (asc ''{{env.brand}}'')"
    by code_simp
  have k: "[asc ''env.brand'' \<mapsto> asc ''Acme''] (trim (asc ''env.brand'')) = Some (asc ''Acme'')"
    by code_simp
  have r1: "replacer [asc ''env.brand'' \<mapsto> asc ''Acme''] (asc ''{{env.brand}}'') (asc ''env.brand'') li
              = (asc ''Acme'', 0)"
    unfolding replacer_no_profile[OF n] k by simp
  have r2: "replacer [asc ''env.brand'' \<mapsto> asc ''Acme''] (asc ''{{profile.name}}'') (asc ''profile.name'') 0
              = (asc ''{{profile.name}}'', 16)"
    by code_simp
  have t: "asc ''Hi {{env.brand}}, {{profile.name}}'' \<noteq> []"
    by (simp add: asc_def)
  have "run_replacer [asc ''env.brand'' \<mapsto> asc ''Acme'']
          (pieces (asc ''Hi {{env.brand}}, {{profile.name}}'')) li
        = ([[72], [105], [32], asc ''Acme'', [44], [32], asc ''{{profile.name}}''], 16)"
    unfolding p by (simp add: r1 r2)
  then have "string_replace [asc ''env.brand'' \<mapsto> asc ''Acme'']
          (asc ''Hi {{env.brand}}, {{profile.name}}'') li
        = (concat [[72], [105], [32], asc ''Acme'', [44], [32], asc ''{{profile.name}}''], 16)"
    by (simp add: string_replace_def)
  moreover have "concat [[72], [105], [32], asc ''Acme'', [44], [32], asc ''{{profile.name}}'']
        = asc ''Hi Acme, {{profile.name}}''"
    by (simp add: asc_def)
  ultimately show ?thesis using t by (simp add: resolveStaticTokens_def)
qed

lemma number_to_string_3600: "number_to_string digits (Fin 3600) = asc ''3600''"
  by (simp add: number_to_string_def is_safe_integer_def nat_to_string.simps asc_def)

lemma number_to_string_86400: "number_to_string digits (Fin 86400) = asc ''86400''"
  by (simp add: number_to_string_def is_safe_integer_def nat_to_string.simps asc_def)


lemma cup_fields:
  "field cup_record ''cardId'' = Str (asc ''cup'')"
  "field cup_record ''headline'' = Str (asc ''Hi {{env.brand}}, {{profile.name}}'')"
  "field cup_record ''body'' = Undefined"
  "field cup_record ''image'' = Undefined"
  "field cup_record ''ctaLabel'' = Undefined"
  "field cup_record ''ctaAction'' = Undefined"
  "field cup_record ''termsText'' = Undefined"
  "field cup_record ''cacheTTL'' = Num (Fin 3600)"
  by (simp_all add: field_def cup_record_def asc_def)

lemma resolve_Undefined: "resolveStaticTokens Undefined tbl li = (Inr Undefined, li)"
  by (simp add: resolveStaticTokens_def)

lemma cup_payload:
  "build_payload cup_record (Str (asc ''cup'')) (Fin 3600) [asc ''env.brand'' \<mapsto> asc ''Acme''] li
     = (Inr \<lparr>cardId = Str (asc ''cup''),
             headline = Str (asc ''Hi Acme, {{profile.name}}''),
             body = Undefined, image = Null, ctaLabel = Undefined,
             ctaAction = Str (asc ''browser''), termsText = Undefined,
             cacheTTL = Fin 3600\<rparr>, 16)"
  by (simp add: build_payload_def cup_fields cup_headline js_or_def resolve_Undefined)

section \<open>Claims about the token resolver\<close>

text \<open>
  C1 says that a profile token is never substituted, however many profile tokens the text
  has and whatever key the table holds.  The action does not keep that: the test of the
  first profile token leaves \<open>lastIndex\<close> at the end of that token, the test of the
  second one starts there, finds nothing and answers no, and the second token is looked
  up in the table.  With the key \<open>profile.b\<close> in the table:
\<close>

theorem profile_token_substituted:
  "resolveStaticTokens (Str (asc ''{{profile.a}}{{profile.b}}'')) [asc ''profile.b'' \<mapsto> asc ''HACK''] 0
     = (Inr (Str (asc ''{{profile.a}}HACK'')), 0)"
  by code_simp

text \<open>
  C2 says that two runs on the same text and table give the same output.  The first
  run below starts with \<open>lastIndex = 0\<close> and leaves it at 13; the second run is the
  next call, on the same text and table, and substitutes the profile token.
\<close>

theorem second_run_differs:
  "resolveStaticTokens (Str (asc ''{{profile.a}}'')) [asc ''profile.a'' \<mapsto> asc ''X''] 0
     = (Inr (Str (asc ''{{profile.a}}'')), 13)
   \<and> resolveStaticTokens (Str (asc ''{{profile.a}}'')) [asc ''profile.a'' \<mapsto> asc ''X''] 13
     = (Inr (Str (asc ''X'')), 0)"
  by code_simp

text \<open>
  C3 as stated, idempotence when no replacement value contains a \<open>{{...}}\<close> sequence,
  fails: a value that is a single opening brace joins the brace after it, and the second
  pass finds a token the first pass did not have.
\<close>

theorem second_pass_counterexample:
  "\<not> has_token_syntax (asc ''{'') \<and> \<not> has_token_syntax (asc ''Y'')
   \<and> resolveStaticTokens (Str (asc ''{{a}}{x}}'')) [asc ''a'' \<mapsto> asc ''{'', asc ''x'' \<mapsto> asc ''Y''] 0
       = (Inr (Str (asc ''{{x}}'')), 0)
   \<and> resolveStaticTokens (Str (asc ''{{x}}'')) [asc ''a'' \<mapsto> asc ''{'', asc ''x'' \<mapsto> asc ''Y''] 0
       = (Inr (Str (asc ''Y'')), 0)
   \<and> asc ''Y'' \<noteq> asc ''{{x}}''"
  by code_simp

text \<open>
  C3, amended: when every replacement value is not empty, has no opening brace and does
  not begin with a closing brace, and no key of the table contains the text
  \<open>profile.\<close>, a second pass over the output of a first pass changes nothing, whatever
  \<open>lastIndex\<close> either pass starts from.
\<close>

theorem second_pass_unchanged:
  assumes "\<forall>k v. tbl k = Some v \<longrightarrow> plain_value v"
    and "\<forall>k \<in> dom tbl. \<not> sublist profile_dot k"
  shows "\<exists>r l. resolveStaticTokens (Str t) tbl lastIndex = (Inr (Str r), l)
           \<and> fst (resolveStaticTokens (Str r) tbl lastIndex') = Inr (Str r)"
proof (cases "t = []")
  case True
  then show ?thesis by (simp add: resolveStaticTokens_def)
next
  case False
  have 1: "fst (string_replace tbl t lastIndex) = scan tbl t"
    using assms(2) by (rule string_replace_pure)
  have 2: "fst (string_replace tbl (scan tbl t) lastIndex') = scan tbl (scan tbl t)"
    using assms(2) by (rule string_replace_pure)
  have 3: "scan tbl (scan tbl t) = scan tbl t"
    using assms(1) by (rule scan_idempotent)
  from False 1 have "resolveStaticTokens (Str t) tbl lastIndex
      = (Inr (Str (scan tbl t)), snd (string_replace tbl t lastIndex))"
    by (simp add: resolveStaticTokens_def split_beta)
  moreover from 2 3 have "fst (resolveStaticTokens (Str (scan tbl t)) tbl lastIndex') = Inr (Str (scan tbl t))"
    by (simp add: resolveStaticTokens_def split_beta)
  ultimately show ?thesis by blast
qed

theorem second_pass_unchanged_witness:
  "plain_value (asc ''V'') \<and> \<not> sublist profile_dot (asc ''x'')
   \<and> resolveStaticTokens (Str (asc ''a{{x}}b'')) [asc ''x'' \<mapsto> asc ''V''] 0 = (Inr (Str (asc ''aVb'')), 0)
   \<and> fst (resolveStaticTokens (Str (asc ''aVb'')) [asc ''x'' \<mapsto> asc ''V''] 0) = Inr (Str (asc ''aVb''))"
proof -
  have v: "plain_value (asc ''V'')"
    by (simp add: plain_value_def asc_def)
  have k: "\<not> sublist profile_dot (asc ''x'')"
    by (simp add: profile_dot_def asc_def sublist_code)
  have h1: "\<forall>k v. [asc ''x'' \<mapsto> asc ''V''] k = Some v \<longrightarrow> plain_value v"
    using v by simp
  have h2: "\<forall>k \<in> dom [asc ''x'' \<mapsto> asc ''V'']. \<not> sublist profile_dot k"
    using k by simp
  have e: "resolveStaticTokens (Str (asc ''a{{x}}b'')) [asc ''x'' \<mapsto> asc ''V''] 0 = (Inr (Str (asc ''aVb'')), 0)"
    by code_simp
  from second_pass_unchanged [OF h1 h2, of "asc ''a{{x}}b''" 0 0] e v k
  show ?thesis by simp
qed

text \<open>
  C6: a text with no \<open>{{...}}\<close> sequence is returned as it is, by any table, and an
  absent or empty text is returned as it is too, not an error; \<open>lastIndex\<close> is not
  touched.
\<close>

theorem token_free_text_unchanged:
  assumes "\<not> has_token_syntax t"
  shows "resolveStaticTokens (Str t) tbl lastIndex = (Inr (Str t), lastIndex)
         \<and> resolveStaticTokens Undefined tbl lastIndex = (Inr Undefined, lastIndex)
         \<and> resolveStaticTokens (Str []) tbl lastIndex = (Inr (Str []), lastIndex)"
  using assms
  by (simp add: resolveStaticTokens_def string_replace_def pieces_plain run_replacer_plain concat_singletons)

theorem token_free_text_unchanged_witness:
  "\<not> has_token_syntax (asc ''Buy {one} cup, get }} one {{ free'')
   \<and> resolveStaticTokens (Str (asc ''Buy {one} cup, get }} one {{ free'')) [asc ''one'' \<mapsto> asc ''1''] 0
       = (Inr (Str (asc ''Buy {one} cup, get }} one {{ free'')), 0)"
proof -
  have h: "\<not> has_token_syntax (asc ''Buy {one} cup, get }} one {{ free'')"
    by (simp add: asc_def)
  show ?thesis using h token_free_text_unchanged [OF h] by simp
qed

text \<open>
  C7: a match whose trimmed name is not a key of the table stands unchanged in the
  output, at its place among the pieces, whether or not it is taken for a profile token
  and whatever \<open>lastIndex\<close> is; and \<open>{{unknown}}\<close> resolved with the empty table is
  \<open>{{unknown}}\<close>.
\<close>

theorem unknown_token_unchanged:
  "(i < length (pieces t) \<and> pieces t ! i = Matched m tok \<and> tbl (trim tok) = None
      \<longrightarrow> fst (run_replacer tbl (pieces t) lastIndex) ! i = m
          \<and> fst (string_replace tbl t lastIndex) = concat (fst (run_replacer tbl (pieces t) lastIndex)))
   \<and> fst (resolveStaticTokens (Str (asc ''{{unknown}}'')) Map.empty lastIndex)
        = Inr (Str (asc ''{{unknown}}''))"
proof -
  have "fst (string_replace Map.empty (asc ''{{unknown}}'') lastIndex) = asc ''{{unknown}}''"
    by (rule string_replace_all_unknown) simp
  moreover have "asc ''{{unknown}}'' \<noteq> []" by (simp add: asc_def)
  ultimately show ?thesis
    by (simp add: run_replacer_unknown resolveStaticTokens_def string_replace_def split_beta)
qed

theorem unknown_token_unchanged_witness:
  "3 < length (pieces (asc ''a{{x}}b{{ y }}''))
   \<and> pieces (asc ''a{{x}}b{{ y }}'') ! 3 = Matched (asc ''{{ y }}'') (asc ''y '')
   \<and> [asc ''x'' \<mapsto> asc ''V''] (trim (asc ''y '')) = None
   \<and> fst (run_replacer [asc ''x'' \<mapsto> asc ''V''] (pieces (asc ''a{{x}}b{{ y }}'')) 0) ! 3 = asc ''{{ y }}''
   \<and> fst (string_replace [asc ''x'' \<mapsto> asc ''V''] (asc ''a{{x}}b{{ y }}'') 0) = asc ''aVb{{ y }}''"
proof -
  have p: "pieces (asc ''a{{x}}b{{ y }}'') = [Unmatched 97, Matched (asc ''{{x}}'') (asc ''x''), Unmatched 98, Matched (asc ''{{ y }}'') (asc ''y '')]"
    by code_simp
  have k: "[asc ''x'' \<mapsto> asc ''V''] (trim (asc ''y '')) = None"
    by code_simp
  have r: "fst (string_replace [asc ''x'' \<mapsto> asc ''V''] (asc ''a{{x}}b{{ y }}'') 0) = asc ''aVb{{ y }}''"
    by code_simp
  have h: "3 < length (pieces (asc ''a{{x}}b{{ y }}''))
    \<and> pieces (asc ''a{{x}}b{{ y }}'') ! 3 = Matched (asc ''{{ y }}'') (asc ''y '')
    \<and> [asc ''x'' \<mapsto> asc ''V''] (trim (asc ''y '')) = None"
    using k by (simp add: p)
  with unknown_token_unchanged [of 3 "asc ''a{{x}}b{{ y }}''" "asc ''{{ y }}''" "asc ''y ''" "[asc ''x'' \<mapsto> asc ''V'']" 0]
  have "fst (run_replacer [asc ''x'' \<mapsto> asc ''V''] (pieces (asc ''a{{x}}b{{ y }}'')) 0) ! 3 = asc ''{{ y }}''"
    by blast
  with h r show ?thesis by blast
qed

section \<open>What a write carries\<close>

lemma main_written:
  assumes "w \<in> set (writes_of (main digits fetch ps lastIndex))"
    and "fetch (get_request (cfUrl_of ps) (authorAccessToken ps)) = Ok_json cfJson"
  shows "\<exists>p l. build_payload (elements_of cfJson) (field (elements_of cfJson) ''cardId'')
                   (ttl_of (elements_of cfJson)) (table_of ps) lastIndex = (Inr p, l)
               \<and> w = put_request digits
                        (publishUrl_of digits ps (field (elements_of cfJson) ''cardId''))
                        (publishAccessToken ps) p (ttl_of (elements_of cfJson))"
proof -
  let ?els = "elements_of cfJson"
  let ?cid = "field ?els ''cardId''"
  have valid: "\<not> (missing (cfPath ps) \<or> missing (authorHost ps) \<or> missing (publishHost ps))"
  proof
    assume "missing (cfPath ps) \<or> missing (authorHost ps) \<or> missing (publishHost ps)"
    then have "writes_of (main digits fetch ps lastIndex) = []"
      by (simp add: main_missing writes_of_def calls_of_def)
    with assms(1) show False by simp
  qed
  then have m: "main digits fetch ps lastIndex =
     (let els = elements_of cfJson; cid = field els ''cardId''
      in if \<not> truthy cid
         then (Returned 422 (Message (asc ''cardId is required'')),
               [get_request (cfUrl_of ps) (authorAccessToken ps)], lastIndex)
         else (case build_payload els cid (ttl_of els) (table_of ps) lastIndex of
                 (Inl e, l') \<Rightarrow> (Thrown e, [get_request (cfUrl_of ps) (authorAccessToken ps)], l')
               | (Inr pl, l') \<Rightarrow>
                   (case fetch (put_request digits (publishUrl_of digits ps cid)
                                  (publishAccessToken ps) pl (ttl_of els)) of
                      Rejected \<Rightarrow> Thrown FetchRejected
                    | Not_ok status txt \<Rightarrow> Thrown (AEM_publish_write_failed status txt)
                    | Ok_not_json \<Rightarrow> Thrown InvalidJson
                    | Ok_json j \<Rightarrow>
                        Returned 200 (Published (asc ''Card payload published'')
                                        (publishUrl_of digits ps cid)),
                    [get_request (cfUrl_of ps) (authorAccessToken ps),
                     put_request digits (publishUrl_of digits ps cid)
                       (publishAccessToken ps) pl (ttl_of els)], l')))"
    using assms(2) by (intro main_fetched) simp_all
  obtain r l where b: "build_payload ?els ?cid (ttl_of ?els) (table_of ps) lastIndex = (r, l)"
    by (cases "build_payload ?els ?cid (ttl_of ?els) (table_of ps) lastIndex") auto
  show ?thesis
  proof (cases r)
    case (Inl e)
    with assms(1) m b show ?thesis
      by (auto simp: writes_of_def calls_of_def Let_def get_request_def split: if_splits)
  next
    case (Inr pl)
    with assms(1) m b have "w = put_request digits (publishUrl_of digits ps ?cid)
                       (publishAccessToken ps) pl (ttl_of ?els)"
      by (auto simp: writes_of_def calls_of_def Let_def get_request_def split: if_splits)
    with Inr b show ?thesis by blast
  qed
qed

section \<open>Claims about the publish action\<close>

text \<open>
  C4 as stated fails in its first half: a TTL value that is not a number and not falsy
  goes through \<open>Number\<close>, and for the string \<open>abc\<close> the resolved TTL is \<open>NaN\<close>, written
  as \<open>max-age=NaN\<close>, not the default.
\<close>

theorem non_numeric_ttl_counterexample:
  "map (map_option cacheTTL \<circ> payload)
       (writes_of (main unused_digits
          (serve (Some (cup_record(asc ''cacheTTL'' \<mapsto> Str (asc ''abc'')))))
          (example_params Map.empty) 0))
     = [Some NaN]
   \<and> map cache_control
       (writes_of (main unused_digits
          (serve (Some (cup_record(asc ''cacheTTL'' \<mapsto> Str (asc ''abc'')))))
          (example_params Map.empty) 0))
     = [Some (asc ''public, max-age=NaN, immutable'')]
   \<and> NaN \<noteq> Fin 86400"
  by code_simp

text \<open>
  C4, amended.  When the TTL field of the fetched record is absent or falsy, the resolved
  TTL is the default: every write the action issues carries \<open>cacheTTL = 86400\<close> and the
  cache directive \<open>public, max-age=86400, immutable\<close>.  And no TTL value makes the
  publish fail: when the parameters are complete, the record has a truthy cardId and its
  headline, body, ctaLabel and termsText are each falsy or a string, the action issues
  the write, for every TTL value, and its outcome is decided by the reply of the
  destination alone: 200 for a success with a JSON body, the error of the write
  otherwise.
\<close>

theorem ttl_resolution:
  assumes "fetch (get_request (cfUrl_of ps) (authorAccessToken ps)) = Ok_json cfJson"
  shows "(\<forall>w p. w \<in> set (writes_of (main digits fetch ps lastIndex)) \<and> payload w = Some p
              \<and> \<not> truthy (field (elements_of cfJson) ''cacheTTL'')
            \<longrightarrow> cacheTTL p = Fin 86400
                \<and> cache_control w = Some (asc ''public, max-age=86400, immutable''))
         \<and> (\<not> missing (cfPath ps) \<and> \<not> missing (authorHost ps) \<and> \<not> missing (publishHost ps)
              \<and> truthy (field (elements_of cfJson) ''cardId'')
              \<and> resolvable (field (elements_of cfJson) ''headline'')
              \<and> resolvable (field (elements_of cfJson) ''body'')
              \<and> resolvable (field (elements_of cfJson) ''ctaLabel'')
              \<and> resolvable (field (elements_of cfJson) ''termsText'')
            \<longrightarrow> (\<exists>w p. calls_of (main digits fetch ps lastIndex)
                          = [get_request (cfUrl_of ps) (authorAccessToken ps), w]
                      \<and> http_method w = PUT \<and> payload w = Some p
                      \<and> fst (main digits fetch ps lastIndex)
                          = (case fetch w of
                               Rejected \<Rightarrow> Thrown FetchRejected
                             | Not_ok status txt \<Rightarrow> Thrown (AEM_publish_write_failed status txt)
                             | Ok_not_json \<Rightarrow> Thrown InvalidJson
                             | Ok_json j \<Rightarrow>
                                 Returned 200
                                   (Published (asc ''Card payload published'')
                                      (publishUrl_of digits ps
                                         (field (elements_of cfJson) ''cardId''))))))"
proof (intro conjI allI impI)
  fix w p
  assume a: "w \<in> set (writes_of (main digits fetch ps lastIndex)) \<and> payload w = Some p
              \<and> \<not> truthy (field (elements_of cfJson) ''cacheTTL'')"
  then have w: "w \<in> set (writes_of (main digits fetch ps lastIndex))" by blast
  from main_written[OF w assms] obtain q l where
    b: "build_payload (elements_of cfJson) (field (elements_of cfJson) ''cardId'')
          (ttl_of (elements_of cfJson)) (table_of ps) lastIndex = (Inr q, l)"
    and q: "w = put_request digits
                  (publishUrl_of digits ps (field (elements_of cfJson) ''cardId''))
                  (publishAccessToken ps) q (ttl_of (elements_of cfJson))"
    by blast
  from a q have pq: "q = p" by (simp add: put_request_def)
  from a have ttl: "ttl_of (elements_of cfJson) = Fin 86400"
    by (simp add: ttl_of_def js_or_def)
  from build_payload_fields[OF b] ttl pq show "cacheTTL p = Fin 86400" by simp
  have "asc ''public, max-age='' @ asc ''86400'' @ asc '', immutable''
          = asc ''public, max-age=86400, immutable''"
    by (simp add: asc_def)
  then show "cache_control w = Some (asc ''public, max-age=86400, immutable'')"
    unfolding q ttl by (simp add: cache_control_def put_request_def number_to_string_86400)
next
  let ?els = "elements_of cfJson"
  let ?cid = "field ?els ''cardId''"
  assume h: "\<not> missing (cfPath ps) \<and> \<not> missing (authorHost ps) \<and> \<not> missing (publishHost ps)
              \<and> truthy (field (elements_of cfJson) ''cardId'')
              \<and> resolvable (field (elements_of cfJson) ''headline'')
              \<and> resolvable (field (elements_of cfJson) ''body'')
              \<and> resolvable (field (elements_of cfJson) ''ctaLabel'')
              \<and> resolvable (field (elements_of cfJson) ''termsText'')"
  then have v: "\<not> missing (cfPath ps)" "\<not> missing (authorHost ps)" "\<not> missing (publishHost ps)"
    and c: "truthy ?cid"
    and r: "resolvable (field ?els ''headline'')" "resolvable (field ?els ''body'')"
      "resolvable (field ?els ''ctaLabel'')" "resolvable (field ?els ''termsText'')"
    by blast+
  from build_payload_total[OF r] obtain p l where
    b: "build_payload ?els ?cid (ttl_of ?els) (table_of ps) lastIndex = (Inr p, l)" by blast
  let ?w = "put_request digits (publishUrl_of digits ps ?cid) (publishAccessToken ps) p (ttl_of ?els)"
  have m: "main digits fetch ps lastIndex =
     (case fetch ?w of
        Rejected \<Rightarrow> Thrown FetchRejected
      | Not_ok status txt \<Rightarrow> Thrown (AEM_publish_write_failed status txt)
      | Ok_not_json \<Rightarrow> Thrown InvalidJson
      | Ok_json j \<Rightarrow> Returned 200 (Published (asc ''Card payload published'')
                                     (publishUrl_of digits ps ?cid)),
      [get_request (cfUrl_of ps) (authorAccessToken ps), ?w], l)"
    by (simp add: main_fetched[where fetch = fetch and ps = ps and cfJson = cfJson,
                                 OF v assms] Let_def c b)
  have 1: "calls_of (main digits fetch ps lastIndex)
             = [get_request (cfUrl_of ps) (authorAccessToken ps), ?w]"
    unfolding m by (simp add: calls_of_def)
  have 2: "http_method ?w = PUT" "payload ?w = Some p"
    by (simp_all add: put_request_def)
  have 3: "fst (main digits fetch ps lastIndex) =
     (case fetch ?w of
        Rejected \<Rightarrow> Thrown FetchRejected
      | Not_ok status txt \<Rightarrow> Thrown (AEM_publish_write_failed status txt)
      | Ok_not_json \<Rightarrow> Thrown InvalidJson
      | Ok_json j \<Rightarrow> Returned 200 (Published (asc ''Card payload published'')
                                     (publishUrl_of digits ps ?cid)))"
    unfolding m by simp
  from 1 2 3 show "\<exists>w p. calls_of (main digits fetch ps lastIndex)
                          = [get_request (cfUrl_of ps) (authorAccessToken ps), w]
                      \<and> http_method w = PUT \<and> payload w = Some p
                      \<and> fst (main digits fetch ps lastIndex)
                          = (case fetch w of
                               Rejected \<Rightarrow> Thrown FetchRejected
                             | Not_ok status txt \<Rightarrow> Thrown (AEM_publish_write_failed status txt)
                             | Ok_not_json \<Rightarrow> Thrown InvalidJson
                             | Ok_json j \<Rightarrow>
                                 Returned 200
                                   (Published (asc ''Card payload published'')
                                      (publishUrl_of digits ps
                                         (field (elements_of cfJson) ''cardId''))))"
    by blast
qed

theorem ttl_resolution_witness:
  "map (map_option cacheTTL \<circ> payload)
       (writes_of (main unused_digits (serve (Some (cup_record(asc ''cacheTTL'' \<mapsto> Str []))))
                     (example_params Map.empty) 0))
     = [Some (Fin 86400)]
   \<and> map cache_control
       (writes_of (main unused_digits (serve (Some (cup_record(asc ''cacheTTL'' \<mapsto> Str []))))
                     (example_params Map.empty) 0))
     = [Some (asc ''public, max-age=86400, immutable'')]
   \<and> fst (main unused_digits (serve (Some (cup_record(asc ''cacheTTL'' \<mapsto> Str (asc ''abc'')))))
                     (example_params Map.empty) 0)
     = Returned 200 (Published (asc ''Card payload published'')
         (publishUrl_of unused_digits (example_params Map.empty) (Str (asc ''cup''))))"
proof -
  let ?ps = "example_params Map.empty"
  let ?r1 = "cup_record(asc ''cacheTTL'' \<mapsto> Str [])"
  let ?r2 = "cup_record(asc ''cacheTTL'' \<mapsto> Str (asc ''abc''))"
  let ?M1 = "main unused_digits (serve (Some ?r1)) ?ps 0"
  let ?M2 = "main unused_digits (serve (Some ?r2)) ?ps 0"
  have v: "\<not> missing (cfPath ?ps) \<and> \<not> missing (authorHost ?ps) \<and> \<not> missing (publishHost ?ps)"
    by (simp add: example_params_def asc_def)
  have f1: "serve (Some ?r1) (get_request (cfUrl_of ?ps) (authorAccessToken ?ps)) = Ok_json (Some ?r1)"
    and f2: "serve (Some ?r2) (get_request (cfUrl_of ?ps) (authorAccessToken ?ps)) = Ok_json (Some ?r2)"
    by (simp_all add: serve_def)
  have c1: "field (elements_of (Some ?r1)) ''cardId'' = Str (asc ''cup'')"
    and c2: "field (elements_of (Some ?r2)) ''cardId'' = Str (asc ''cup'')"
    by (simp_all add: field_def elements_of_def cup_record_def asc_def)
  have cup: "truthy (Str (asc ''cup''))"
    by (simp add: asc_def)
  have r1: "resolvable (field (elements_of (Some ?r1)) ''headline'')
      \<and> resolvable (field (elements_of (Some ?r1)) ''body'')
      \<and> resolvable (field (elements_of (Some ?r1)) ''ctaLabel'')
      \<and> resolvable (field (elements_of (Some ?r1)) ''termsText'')"
    by (simp add: field_def elements_of_def cup_record_def asc_def)
  have r2: "resolvable (field (elements_of (Some ?r2)) ''headline'')
      \<and> resolvable (field (elements_of (Some ?r2)) ''body'')
      \<and> resolvable (field (elements_of (Some ?r2)) ''ctaLabel'')
      \<and> resolvable (field (elements_of (Some ?r2)) ''termsText'')"
    by (simp add: field_def elements_of_def cup_record_def asc_def)
  have t1: "\<not> truthy (field (elements_of (Some ?r1)) ''cacheTTL'')"
    by (simp add: field_def elements_of_def asc_def)
  note T1 = ttl_resolution
         [where fetch = "serve (Some ?r1)" and ps = ?ps and cfJson = "Some ?r1"
            and digits = unused_digits and lastIndex = 0, OF f1]
  note T2 = ttl_resolution
         [where fetch = "serve (Some ?r2)" and ps = ?ps and cfJson = "Some ?r2"
            and digits = unused_digits and lastIndex = 0, OF f2]
  from T1 v r1 cup obtain w p where
    w: "calls_of ?M1 = [get_request (cfUrl_of ?ps) (authorAccessToken ?ps), w]"
      "http_method w = PUT" "payload w = Some p"
    unfolding c1 by (elim conjE) blast
  from w(1,2) have ws: "writes_of ?M1 = [w]"
    by (simp add: writes_of_def get_request_def)
  then have "w \<in> set (writes_of ?M1)" by simp
  with T1 w(3) t1 have d: "cacheTTL p = Fin 86400"
    "cache_control w = Some (asc ''public, max-age=86400, immutable'')"
    by blast+
  have 1: "map (map_option cacheTTL \<circ> payload) (writes_of ?M1) = [Some (Fin 86400)]"
    unfolding ws by (simp add: w(3) d(1))
  have 2: "map cache_control (writes_of ?M1) = [Some (asc ''public, max-age=86400, immutable'')]"
    unfolding ws by (simp add: d(2))
  from T2 v r2 cup obtain w' where
    "fst ?M2 = (case serve (Some ?r2) w' of
                  Rejected \<Rightarrow> Thrown FetchRejected
                | Not_ok status txt \<Rightarrow> Thrown (AEM_publish_write_failed status txt)
                | Ok_not_json \<Rightarrow> Thrown InvalidJson
                | Ok_json j \<Rightarrow>
                    Returned 200
                      (Published (asc ''Card payload published'')
                         (publishUrl_of unused_digits ?ps (Str (asc ''cup'')))))"
    unfolding c2 by (elim conjE) blast
  then have 3: "fst ?M2 = Returned 200 (Published (asc ''Card payload published'')
         (publishUrl_of unused_digits ?ps (Str (asc ''cup''))))"
    by (simp add: serve_def)
  from 1 2 3 show ?thesis by (intro conjI)
qed

text \<open>
  C5: with the record of the end-to-end example and the table \<open>env.brand \<mapsto> Acme\<close>,
  whatever the hosts, the credentials and \<open>lastIndex\<close> are, the action writes once, the
  payload written has the headline \<open>Hi Acme, {{profile.name}}\<close>, and the cache directive
  of the write is \<open>public, max-age=3600, immutable\<close>.  The record is read as the
  action reads it, each field under \<open>elements.<name>.value\<close>.
\<close>

theorem end_to_end_cup:
  assumes "\<not> missing (cfPath ps)" "\<not> missing (authorHost ps)" "\<not> missing (publishHost ps)"
    and "staticTokens ps = Some [asc ''env.brand'' \<mapsto> asc ''Acme'']"
    and "fetch (get_request (cfUrl_of ps) (authorAccessToken ps)) = Ok_json (Some cup_record)"
  shows "\<exists>w p. writes_of (main digits fetch ps lastIndex) = [w]
           \<and> payload w = Some p
           \<and> headline p = Str (asc ''Hi Acme, {{profile.name}}'')
           \<and> cache_control w = Some (asc ''public, max-age=3600, immutable'')
           \<and> sublist (asc ''max-age=3600'') (asc ''public, max-age=3600, immutable'')"
proof -
  let ?p = "\<lparr>cardId = Str (asc ''cup''),
             headline = Str (asc ''Hi Acme, {{profile.name}}''),
             body = Undefined, image = Null, ctaLabel = Undefined,
             ctaAction = Str (asc ''browser''), termsText = Undefined,
             cacheTTL = Fin 3600\<rparr>"
  let ?w = "put_request digits (publishUrl_of digits ps (Str (asc ''cup'')))
              (publishAccessToken ps) ?p (Fin 3600)"
  have ttl: "ttl_of cup_record = Fin 3600"
    by (simp add: ttl_of_def cup_fields js_or_def)
  have tbl: "table_of ps = [asc ''env.brand'' \<mapsto> asc ''Acme'']"
    using assms(4) by (simp add: table_of_def)
  have cup: "asc ''cup'' \<noteq> []"
    by (simp add: asc_def)
  have "calls_of (main digits fetch ps lastIndex)
          = [get_request (cfUrl_of ps) (authorAccessToken ps), ?w]"
    by (simp add: main_fetched[where fetch = fetch and ps = ps and cfJson = "Some cup_record",
                                 OF assms(1,2,3,5)]
        Let_def elements_of_def cup_fields cup ttl tbl cup_payload calls_of_def
        split: response.splits)
  then have 1: "writes_of (main digits fetch ps lastIndex) = [?w]"
    by (simp add: writes_of_def get_request_def put_request_def)
  have 2: "payload ?w = Some ?p" by (simp add: put_request_def)
  have 3: "cache_control ?w = Some (asc ''public, max-age=3600, immutable'')"
    by (simp add: cache_control_def put_request_def number_to_string_3600) (simp add: asc_def)
  have 4: "sublist (asc ''max-age=3600'') (asc ''public, max-age=3600, immutable'')"
    by code_simp
  from 1 2 3 4 show ?thesis by simp
qed

theorem end_to_end_cup_witness:
  "map (map_option headline \<circ> payload)
       (writes_of (main unused_digits (serve (Some cup_record))
                     (example_params [asc ''env.brand'' \<mapsto> asc ''Acme'']) 0))
     = [Some (Str (asc ''Hi Acme, {{profile.name}}''))]
   \<and> map cache_control
       (writes_of (main unused_digits (serve (Some cup_record))
                     (example_params [asc ''env.brand'' \<mapsto> asc ''Acme'']) 0))
     = [Some (asc ''public, max-age=3600, immutable'')]"
proof -
  have h: "\<not> missing (cfPath (example_params [asc ''env.brand'' \<mapsto> asc ''Acme'']))"
    "\<not> missing (authorHost (example_params [asc ''env.brand'' \<mapsto> asc ''Acme'']))"
    "\<not> missing (publishHost (example_params [asc ''env.brand'' \<mapsto> asc ''Acme'']))"
    by (simp_all add: example_params_def asc_def)
  have t: "staticTokens (example_params [asc ''env.brand'' \<mapsto> asc ''Acme''])
             = Some [asc ''env.brand'' \<mapsto> asc ''Acme'']"
    by (simp add: example_params_def)
  have f: "serve (Some cup_record)
             (get_request (cfUrl_of (example_params [asc ''env.brand'' \<mapsto> asc ''Acme'']))
                (authorAccessToken (example_params [asc ''env.brand'' \<mapsto> asc ''Acme''])))
           = Ok_json (Some cup_record)"
    by (simp add: serve_def)
  from end_to_end_cup
         [where fetch = "serve (Some cup_record)"
            and ps = "example_params [asc ''env.brand'' \<mapsto> asc ''Acme'']"
            and digits = unused_digits and lastIndex = 0, OF h t f]
  show ?thesis by auto
qed

text \<open>
  C8: when the parameters are complete and the fetched record has no cardId (or a falsy
  one), the action returns 422 with the message \<open>cardId is required\<close>, its only call is
  the fetch, and the outcome differs from the one for missing parameters.
\<close>

theorem missing_cardId_unprocessable:
  assumes "\<not> missing (cfPath ps)" "\<not> missing (authorHost ps)" "\<not> missing (publishHost ps)"
    and "fetch (get_request (cfUrl_of ps) (authorAccessToken ps)) = Ok_json cfJson"
    and "\<not> truthy (field (elements_of cfJson) ''cardId'')"
  shows "main digits fetch ps lastIndex
           = (Returned 422 (Message (asc ''cardId is required'')),
              [get_request (cfUrl_of ps) (authorAccessToken ps)], lastIndex)
         \<and> writes_of (main digits fetch ps lastIndex) = []
         \<and> (\<forall>ps'. missing (cfPath ps') \<or> missing (authorHost ps') \<or> missing (publishHost ps')
               \<longrightarrow> fst (main digits fetch ps' lastIndex) \<noteq> fst (main digits fetch ps lastIndex))"
proof -
  have 1: "main digits fetch ps lastIndex
           = (Returned 422 (Message (asc ''cardId is required'')),
              [get_request (cfUrl_of ps) (authorAccessToken ps)], lastIndex)"
    using assms by (simp add: main_fetched)
  then have 2: "writes_of (main digits fetch ps lastIndex) = []"
    by (simp add: writes_of_def calls_of_def get_request_def)
  have 3: "\<forall>ps'. missing (cfPath ps') \<or> missing (authorHost ps') \<or> missing (publishHost ps')
               \<longrightarrow> fst (main digits fetch ps' lastIndex) \<noteq> fst (main digits fetch ps lastIndex)"
    by (simp add: 1 main_missing)
  from 1 2 3 show ?thesis by blast
qed

theorem missing_cardId_unprocessable_witness:
  "main unused_digits (serve (Some [asc ''headline'' \<mapsto> Str (asc ''Hello'')]))
       (example_params Map.empty) 0
     = (Returned 422 (Message (asc ''cardId is required'')),
        [get_request (cfUrl_of (example_params Map.empty))
           (authorAccessToken (example_params Map.empty))], 0)
   \<and> writes_of (main unused_digits (serve (Some [asc ''headline'' \<mapsto> Str (asc ''Hello'')]))
       (example_params Map.empty) 0) = []"
proof -
  have h: "\<not> missing (cfPath (example_params Map.empty))"
    "\<not> missing (authorHost (example_params Map.empty))"
    "\<not> missing (publishHost (example_params Map.empty))"
    by (simp_all add: example_params_def asc_def)
  have f: "serve (Some [asc ''headline'' \<mapsto> Str (asc ''Hello'')])
             (get_request (cfUrl_of (example_params Map.empty))
                (authorAccessToken (example_params Map.empty)))
           = Ok_json (Some [asc ''headline'' \<mapsto> Str (asc ''Hello'')])"
    by (simp add: serve_def)
  have c: "\<not> truthy (field (elements_of (Some [asc ''headline'' \<mapsto> Str (asc ''Hello'')])) ''cardId'')"
    by (simp add: field_def elements_of_def asc_def)
  from missing_cardId_unprocessable
         [where fetch = "serve (Some [asc ''headline'' \<mapsto> Str (asc ''Hello'')])"
            and ps = "example_params Map.empty"
            and cfJson = "Some [asc ''headline'' \<mapsto> Str (asc ''Hello'')]"
            and digits = unused_digits and lastIndex = 0, OF h f c]
  show ?thesis by blast
qed

text \<open>
  C9: when the source path, the source host or the destination host is absent or empty,
  the action returns 400 and makes no call at all.
\<close>

theorem missing_parameter_no_calls:
  assumes "missing (cfPath ps) \<or> missing (authorHost ps) \<or> missing (publishHost ps)"
  shows "main digits fetch ps lastIndex
           = (Returned 400 (Message (asc ''Missing required parameters'')), [], lastIndex)"
  using assms by (rule main_missing)

theorem missing_parameter_no_calls_witness:
  "missing (publishHost ((example_params Map.empty)\<lparr>publishHost := None\<rparr>))
   \<and> main unused_digits (serve (Some cup_record)) ((example_params Map.empty)\<lparr>publishHost := None\<rparr>) 0
       = (Returned 400 (Message (asc ''Missing required parameters'')), [], 0)"
proof -
  have h: "missing (publishHost ((example_params Map.empty)\<lparr>publishHost := None\<rparr>))"
    by simp
  then have "missing (cfPath ((example_params Map.empty)\<lparr>publishHost := None\<rparr>))
      \<or> missing (authorHost ((example_params Map.empty)\<lparr>publishHost := None\<rparr>))
      \<or> missing (publishHost ((example_params Map.empty)\<lparr>publishHost := None\<rparr>))"
    by blast
  from missing_parameter_no_calls [OF this] h show ?thesis by blast
qed

text \<open>
  C10: in every payload the action writes, the image is the image value of the fetched
  record when that value is truthy, copied as it is and never resolved, and \<open>null\<close>
  when the value is absent or the empty string.
\<close>

theorem image_copied_or_null:
  assumes "w \<in> set (writes_of (main digits fetch ps lastIndex))"
    and "payload w = Some p"
    and "fetch (get_request (cfUrl_of ps) (authorAccessToken ps)) = Ok_json cfJson"
  shows "image p = (if truthy (field (elements_of cfJson) ''image'')
                    then field (elements_of cfJson) ''image'' else Null)
         \<and> (field (elements_of cfJson) ''image'' = Undefined \<longrightarrow> image p = Null)
         \<and> (field (elements_of cfJson) ''image'' = Str [] \<longrightarrow> image p = Null)
         \<and> (\<forall>s. s \<noteq> [] \<and> field (elements_of cfJson) ''image'' = Str s \<longrightarrow> image p = Str s)"
proof -
  let ?els = "elements_of cfJson"
  let ?cid = "field ?els ''cardId''"
  have valid: "\<not> (missing (cfPath ps) \<or> missing (authorHost ps) \<or> missing (publishHost ps))"
  proof
    assume "missing (cfPath ps) \<or> missing (authorHost ps) \<or> missing (publishHost ps)"
    then have "writes_of (main digits fetch ps lastIndex) = []"
      by (simp add: main_missing writes_of_def calls_of_def)
    with assms(1) show False by simp
  qed
  then have m: "main digits fetch ps lastIndex =
     (let els = elements_of cfJson; cid = field els ''cardId''
      in if \<not> truthy cid
         then (Returned 422 (Message (asc ''cardId is required'')),
               [get_request (cfUrl_of ps) (authorAccessToken ps)], lastIndex)
         else (case build_payload els cid (ttl_of els) (table_of ps) lastIndex of
                 (Inl e, l') \<Rightarrow> (Thrown e, [get_request (cfUrl_of ps) (authorAccessToken ps)], l')
               | (Inr pl, l') \<Rightarrow>
                   (case fetch (put_request digits (publishUrl_of digits ps cid)
                                  (publishAccessToken ps) pl (ttl_of els)) of
                      Rejected \<Rightarrow> Thrown FetchRejected
                    | Not_ok status txt \<Rightarrow> Thrown (AEM_publish_write_failed status txt)
                    | Ok_not_json \<Rightarrow> Thrown InvalidJson
                    | Ok_json j \<Rightarrow>
                        Returned 200 (Published (asc ''Card payload published'')
                                        (publishUrl_of digits ps cid)),
                    [get_request (cfUrl_of ps) (authorAccessToken ps),
                     put_request digits (publishUrl_of digits ps cid)
                       (publishAccessToken ps) pl (ttl_of els)], l')))"
    using assms(3) by (intro main_fetched) simp_all
  obtain r l where b: "build_payload ?els ?cid (ttl_of ?els) (table_of ps) lastIndex = (r, l)"
    by (cases "build_payload ?els ?cid (ttl_of ?els) (table_of ps) lastIndex") auto
  have "\<exists>l. build_payload ?els ?cid (ttl_of ?els) (table_of ps) lastIndex = (Inr p, l)"
  proof (cases r)
    case (Inl e)
    with assms(1) m b show ?thesis
      by (auto simp: writes_of_def calls_of_def Let_def get_request_def split: if_splits)
  next
    case (Inr pl)
    with assms(1) m b have "w = put_request digits (publishUrl_of digits ps ?cid)
                       (publishAccessToken ps) pl (ttl_of ?els)"
      by (auto simp: writes_of_def calls_of_def Let_def get_request_def split: if_splits)
    with assms(2) have "pl = p" by (simp add: put_request_def)
    with Inr b show ?thesis by blast
  qed
  then obtain l' where "build_payload ?els ?cid (ttl_of ?els) (table_of ps) lastIndex = (Inr p, l')"
    by blast
  from build_payload_fields[OF this] have "image p = js_or (field ?els ''image'') Null" by blast
  then show ?thesis by (auto simp: js_or_def)
qed

theorem image_copied_or_null_witness:
  "map (map_option image \<circ> payload)
       (writes_of (main unused_digits
          (serve (Some (cup_record(asc ''image'' \<mapsto> Str (asc ''/img/{{env.brand}}.png'')))))
          (example_params [asc ''env.brand'' \<mapsto> asc ''Acme'']) 0))
     = [Some (Str (asc ''/img/{{env.brand}}.png''))]"
proof -
  let ?rec = "cup_record(asc ''image'' \<mapsto> Str (asc ''/img/{{env.brand}}.png''))"
  let ?ps = "example_params [asc ''env.brand'' \<mapsto> asc ''Acme'']"
  let ?M = "main unused_digits (serve (Some ?rec)) ?ps 0"
  have "map (\<lambda>c. payload c = None) (writes_of ?M) = [False]"
    by code_simp
  then obtain w p where w: "writes_of ?M = [w]" and p: "payload w = Some p"
    by (cases "writes_of ?M") auto
  have f: "serve (Some ?rec) (get_request (cfUrl_of ?ps) (authorAccessToken ?ps)) = Ok_json (Some ?rec)"
    by (simp add: serve_def)
  have i: "field (elements_of (Some ?rec)) ''image'' = Str (asc ''/img/{{env.brand}}.png'')"
    by (simp add: field_def elements_of_def)
  have n: "asc ''/img/{{env.brand}}.png'' \<noteq> []"
    by (simp add: asc_def)
  from w have "w \<in> set (writes_of ?M)" by simp
  from image_copied_or_null [OF this p f] i n
  have "image p = Str (asc ''/img/{{env.brand}}.png'')" by simp
  with w p show ?thesis by simp
qed

end
